theory Spec2Isabelle
  imports Main
begin

section \<open>pquv: asynchronous libpq queries on a libuv loop\<close>

text \<open>
  A shallow embedding of \<^verbatim>\<open>src/pquv.c\<close>. The context \<^verbatim>\<open>pg_async_t\<close> and the query
  \<^verbatim>\<open>pg_query_t\<close> are records; every function takes the context and returns the
  updated context together with the calls it made to libpq, libuv, the allocator and the
  user's callbacks, in the order it made them. What libpq and libuv answer is read from
  an environment record, so every branch of the source is a branch of the model.

  The source is compiled either with the readiness watcher \<^verbatim>\<open>uv_poll_t\<close> or, under
  \<^verbatim>\<open>_WIN32\<close>, with the periodic timer \<^verbatim>\<open>uv_timer_t\<close>; the model takes the choice as
  a parameter.
\<close>

subsection \<open>Data\<close>

datatype platform = Unix | Win32

datatype conn_status = CONNECTION_OK | CONNECTION_BAD

datatype exec_status =
    PGRES_EMPTY_QUERY
  | PGRES_COMMAND_OK
  | PGRES_TUPLES_OK
  | PGRES_COPY_OUT
  | PGRES_COPY_IN
  | PGRES_BAD_RESPONSE
  | PGRES_NONFATAL_ERROR
  | PGRES_FATAL_ERROR

text \<open>A \<^verbatim>\<open>PGresult\<close>: its identity, \<^verbatim>\<open>PQresultStatus\<close> and \<^verbatim>\<open>PQresultErrorMessage\<close>.\<close>

record pg_result =
  r_id :: nat
  r_status :: exec_status
  r_error :: string

text \<open>
  \<^verbatim>\<open>struct pg_query\<close>. A \<^verbatim>\<open>char *\<close> that may be \<^verbatim>\<open>NULL\<close> is a \<open>string option\<close>, the
  array \<^verbatim>\<open>params\<close> is a list that may itself be absent, a callback is the number of the
  function it points to, \<^verbatim>\<open>void *data\<close> is a number. The link \<^verbatim>\<open>next\<close> is the
  position in the list that holds the queue.
\<close>

record pg_query =
  sql :: string
  params :: "string option list option"
  param_count :: int
  result_cb :: "nat option"
  q_data :: nat

datatype uv_handle_type = UV_UNKNOWN_HANDLE | UV_POLL | UV_TIMER

text \<open>
  The part of a libuv handle the source reads or libuv changes on its behalf: the type
  tag (zero, \<^verbatim>\<open>UV_UNKNOWN_HANDLE\<close>, in zeroed memory), whether \<^verbatim>\<open>data\<close> points to the
  context, and the flags active, closing and closed.
\<close>

record uv_handle =
  h_type :: uv_handle_type
  h_data :: bool
  h_active :: bool
  h_closing :: bool
  h_closed :: bool

text \<open>
  \<^verbatim>\<open>struct pg_async\<close>, with the fields \<^verbatim>\<open>src/pquv.c\<close> uses. The C flags hold 0 or 1 and
  are booleans here. \<^verbatim>\<open>handle\<close> is \<^verbatim>\<open>pg->poll\<close>, or \<^verbatim>\<open>pg->timer\<close> under \<^verbatim>\<open>_WIN32\<close>.
  \<^verbatim>\<open>handle_initialized\<close> is declared in \<^verbatim>\<open>src/pquv.h\<close>; \<^verbatim>\<open>src/pquv.c\<close> never assigns
  it. The queue is the list of the queries linked from \<^verbatim>\<open>query_queue\<close>, and
  \<^verbatim>\<open>query_queue_tail\<close> is kept beside it as the source keeps it; it always points
  to the last query of the list (lemma \<open>tail_is_last\<close>).
\<close>

record pg_async =
  conn :: "nat option"
  owns_connection :: bool
  is_connected :: bool
  is_executing :: bool
  destroying :: bool
  handle_initialized :: bool
  handle :: uv_handle
  query_queue :: "pg_query list"
  query_queue_tail :: "pg_query option"
  current_query :: "pg_query option"
  error_message :: "string option"
  user_data :: nat

text \<open>
  The calls the code makes, as they appear in a trace. \<open>EvCrash\<close> ends a trace: the
  call before it did not return and the process died there.
\<close>

datatype event =
    EvSendQuery string
  | EvSendQueryParams string int "string option list option"
  | EvInit int
  | EvStart int
  | EvStop
  | EvClose
  | EvCancel
  | EvFinish
  | EvResultCb nat pg_result nat
  | EvClear pg_result
  | EvFreeQuery pg_query
  | EvFreeErrorMessage
  | EvFreePg
  | EvCloseCompleted
  | EvCrash

text \<open>
  What the environment answers during one entry into the library: the return values of
  \<^verbatim>\<open>PQsendQuery\<close>/\<^verbatim>\<open>PQsendQueryParams\<close>, \<^verbatim>\<open>PQsocket\<close>, \<^verbatim>\<open>uv_poll_init\<close> or
  \<^verbatim>\<open>uv_timer_init\<close>, \<^verbatim>\<open>uv_poll_start\<close> or \<^verbatim>\<open>uv_timer_start\<close>, whether
  \<^verbatim>\<open>PQgetCancel\<close> returns a cancel object, the \<^verbatim>\<open>status\<close> argument of \<^verbatim>\<open>on_poll\<close>, the
  answers of \<^verbatim>\<open>PQconsumeInput\<close> and \<^verbatim>\<open>PQisBusy\<close>, the results \<^verbatim>\<open>PQgetResult\<close> returns
  before it returns \<^verbatim>\<open>NULL\<close>, and the texts of \<^verbatim>\<open>PQerrorMessage\<close> and \<^verbatim>\<open>uv_strerror\<close>.
\<close>

record env =
  e_send_result :: bool
  e_sock :: int
  e_init_result :: int
  e_start_result :: int
  e_cancel :: bool
  e_status :: int
  e_consume_input :: bool
  e_is_busy :: bool
  e_results :: "pg_result list"
  e_error_message :: string
  e_strerror :: "int \<Rightarrow> string"

text \<open>What the allocator answers during one call of \<^verbatim>\<open>pquv_queue\<close> or \<^verbatim>\<open>pquv_create\<close>.\<close>

record alloc =
  a_calloc :: bool
  a_strdup_sql :: bool
  a_malloc_params :: bool
  a_strdup_param :: "nat \<Rightarrow> bool"

subsection \<open>The libuv calls on a handle\<close>

definition uv_init :: "platform \<Rightarrow> uv_handle \<Rightarrow> uv_handle" where
  "uv_init plat h =
     h\<lparr>h_type := (case plat of Unix \<Rightarrow> UV_POLL | Win32 \<Rightarrow> UV_TIMER),
       h_active := False, h_closing := False, h_closed := False\<rparr>"

definition uv_start :: "uv_handle \<Rightarrow> uv_handle" where
  "uv_start h = h\<lparr>h_active := True\<rparr>"

definition uv_stop :: "uv_handle \<Rightarrow> uv_handle" where
  "uv_stop h = h\<lparr>h_active := False\<rparr>"

text \<open>
  \<^verbatim>\<open>uv_poll_stop\<close> and \<^verbatim>\<open>uv_timer_stop\<close> reach through \<^verbatim>\<open>handle->loop\<close> and the
  handle's queue links. On a handle that no \<^verbatim>\<open>uv_poll_init\<close> or \<^verbatim>\<open>uv_timer_init\<close> has
  set up these are the zeroes that \<^verbatim>\<open>calloc\<close> and \<^verbatim>\<open>memset\<close> left, and the call
  dereferences a null pointer: the process dies in it.
\<close>

definition stop_crashes :: "uv_handle \<Rightarrow> bool" where
  "stop_crashes h = (h_type h = UV_UNKNOWN_HANDLE)"

definition crashed :: "event list \<Rightarrow> bool" where
  "crashed es = (EvCrash \<in> set es)"

definition uv_close :: "uv_handle \<Rightarrow> uv_handle" where
  "uv_close h = h\<lparr>h_active := False, h_closing := True\<rparr>"

definition uv_is_closing :: "uv_handle \<Rightarrow> bool" where
  "uv_is_closing h = (h_closing h \<or> h_closed h)"

definition zeroed_handle :: uv_handle where
  "zeroed_handle =
     \<lparr>h_type = UV_UNKNOWN_HANDLE, h_data = False, h_active = False,
      h_closing = False, h_closed = False\<rparr>"

subsection \<open>pquv_create\<close>

definition pquv_create :: "alloc \<Rightarrow> nat option \<Rightarrow> conn_status \<Rightarrow> nat \<Rightarrow> pg_async option" where
  "pquv_create mem existing_conn status d =
     (case existing_conn of
        None \<Rightarrow> None
      | Some c \<Rightarrow>
          if status \<noteq> CONNECTION_OK then None
          else if \<not> a_calloc mem then None
          else Some \<lparr>conn = Some c, owns_connection = False, is_connected = True,
                     is_executing = False, destroying = False, handle_initialized = False,
                     handle = zeroed_handle\<lparr>h_data := True\<rparr>,
                     query_queue = [], query_queue_tail = None, current_query = None,
                     error_message = None, user_data = d\<rparr>)"

subsection \<open>pquv_queue\<close>

text \<open>
  The caller's \<^verbatim>\<open>const char **params\<close> is a pointer, read at the indices
  \<open>0 ..< param_count\<close>: a function from the index. \<^verbatim>\<open>strdup\<close> of a parameter returns
  \<^verbatim>\<open>NULL\<close> when the allocator fails, and the source stores that.
\<close>

definition copy_params :: "alloc \<Rightarrow> int \<Rightarrow> (nat \<Rightarrow> string option) \<Rightarrow> string option list" where
  "copy_params mem n ps =
     map (\<lambda>i. case ps i of
                 None \<Rightarrow> None
               | Some s \<Rightarrow> if a_strdup_param mem i then Some s else None)
         [0 ..< nat n]"

text \<open>The query that \<^verbatim>\<open>pquv_queue\<close> builds once its allocations have succeeded.\<close>

definition new_query ::
  "alloc \<Rightarrow> string \<Rightarrow> int \<Rightarrow> (nat \<Rightarrow> string option) option \<Rightarrow> nat option \<Rightarrow> nat \<Rightarrow> pg_query" where
  "new_query mem s n pso cb qd =
     \<lparr>sql = s,
      params = (case pso of
                  None \<Rightarrow> None
                | Some ps \<Rightarrow> if n > 0 then Some (copy_params mem n ps) else None),
      param_count = n, result_cb = cb, q_data = qd\<rparr>"

definition pquv_queue ::
  "alloc \<Rightarrow> pg_async option \<Rightarrow> string option \<Rightarrow> int \<Rightarrow> (nat \<Rightarrow> string option) option \<Rightarrow>
   nat option \<Rightarrow> nat \<Rightarrow> int \<times> pg_async option" where
  "pquv_queue mem pgo sqlo n pso cb qd =
     (case pgo of
        None \<Rightarrow> (- 1, pgo)
      | Some pg \<Rightarrow>
         (case sqlo of
            None \<Rightarrow> (- 1, pgo)
          | Some s \<Rightarrow>
              if \<not> a_calloc mem then (- 1, pgo)
              else if \<not> a_strdup_sql mem then (- 1, pgo)
              else if n > 0 \<and> pso \<noteq> None \<and> \<not> a_malloc_params mem then (- 1, pgo)
              else
                let query = new_query mem s n pso cb qd
                in (0, Some (pg\<lparr>query_queue := query_queue pg @ [query],
                                query_queue_tail := Some query\<rparr>))))"

subsection \<open>cleanup_query and pg_async_cancel\<close>

text \<open>
  \<^verbatim>\<open>cleanup_query\<close> frees the text, the parameters and the query itself; the trace
  records it as one event. On \<^verbatim>\<open>NULL\<close> it does nothing.
\<close>

definition cleanup_query :: "pg_query option \<Rightarrow> event list" where
  "cleanup_query qo = (case qo of None \<Rightarrow> [] | Some q \<Rightarrow> [EvFreeQuery q])"

fun free_queue :: "pg_query list \<Rightarrow> event list" where
  "free_queue [] = []"
| "free_queue (q # qs) = cleanup_query (Some q) @ free_queue qs"

definition pg_async_cancel :: "env \<Rightarrow> pg_async \<Rightarrow> pg_async \<times> event list" where
  "pg_async_cancel e pg =
     (if is_executing pg \<and> stop_crashes (handle pg) then (pg, [EvStop, EvCrash])
      else
        let (pg1, es1) =
              (if is_executing pg
               then (pg\<lparr>handle := uv_stop (handle pg), is_executing := False\<rparr>,
                     EvStop # (if e_cancel e then [EvCancel] else []))
               else (pg, []))
        in (pg1\<lparr>query_queue := [], query_queue_tail := None\<rparr>,
            es1 @ free_queue (query_queue pg1)))"

subsection \<open>pg_async_destroy and on_handle_closed\<close>

definition pg_async_destroy :: "env \<Rightarrow> pg_async \<Rightarrow> pg_async \<times> event list" where
  "pg_async_destroy e pg =
     (if destroying pg then (pg, [])
      else
        let (pg2, es2) = pg_async_cancel e (pg\<lparr>destroying := True\<rparr>)
        in if crashed es2 then (pg2, es2)
      else
        let (pg3, es3) = (if conn pg2 \<noteq> None \<and> owns_connection pg2
                          then (pg2\<lparr>conn := None\<rparr>, [EvFinish])
                          else (pg2, []));
            initialized = (h_type (handle pg3) \<noteq> UV_UNKNOWN_HANDLE);
            (pg4, es4) = (if initialized \<and> \<not> uv_is_closing (handle pg3)
                          then (pg3\<lparr>handle := uv_close (handle pg3)\<rparr>, [EvClose])
                          else (pg3, []));
            es5 = (if \<not> initialized
                   then (if error_message pg4 \<noteq> None then [EvFreeErrorMessage] else [])
                        @ [EvFreePg]
                   else [])
        in (pg4, es2 @ es3 @ es4 @ es5))"

definition on_handle_closed :: "pg_async \<Rightarrow> pg_async \<times> event list" where
  "on_handle_closed pg =
     (if h_data (handle pg)
      then (pg, (if error_message pg \<noteq> None then [EvFreeErrorMessage] else []) @ [EvFreePg])
      else (pg, []))"

subsection \<open>handle_error\<close>

definition handle_error :: "env \<Rightarrow> string option \<Rightarrow> pg_async \<Rightarrow> pg_async \<times> event list" where
  "handle_error e err pg =
     (if is_executing pg \<and> stop_crashes (handle pg) then (pg, [EvStop, EvCrash])
      else
        let (pg1, es1) =
              (if is_executing pg
               then (pg\<lparr>handle := uv_stop (handle pg), is_executing := False\<rparr>, [EvStop])
               else (pg, []));
            es2 = (if error_message pg1 \<noteq> None then [EvFreeErrorMessage] else []);
            pg2 = pg1\<lparr>error_message := err\<rparr>;
            (pg3, es3) = pg_async_cancel e pg2
        in if crashed es3 then (pg3, es1 @ es2 @ es3)
      else
        let (pg4, es4) = pg_async_destroy e pg3
        in (pg4, es1 @ es2 @ es3 @ es4))"

subsection \<open>execute_next_query\<close>

definition send_event :: "pg_query \<Rightarrow> event" where
  "send_event q =
     (if param_count q > 0 then EvSendQueryParams (sql q) (param_count q) (params q)
      else EvSendQuery (sql q))"

text \<open>The part after a successful send: binding the handle to the loop and arming it.\<close>

definition arm_handle :: "platform \<Rightarrow> env \<Rightarrow> pg_async \<Rightarrow> pg_async \<times> event list" where
  "arm_handle plat e pg =
     (case plat of
        Win32 \<Rightarrow>
          if e_init_result e \<noteq> 0
          then (let (pg', es) = handle_error e (Some (e_strerror e (e_init_result e))) pg
                in (pg', EvInit (e_init_result e) # es))
          else
            let pg1 = pg\<lparr>handle := (uv_init plat (handle pg))\<lparr>h_data := True\<rparr>\<rparr>
            in if e_start_result e \<noteq> 0
               then (let (pg', es) = handle_error e (Some (e_strerror e (e_start_result e))) pg1
                     in (pg', EvInit 0 # EvStart (e_start_result e) # es))
               else (pg1\<lparr>handle := uv_start (handle pg1)\<rparr>, [EvInit 0, EvStart 0])
      | Unix \<Rightarrow>
          if e_sock e < 0
          then handle_error e (Some ''Invalid PostgreSQL socket'') pg
          else if e_init_result e \<noteq> 0
          then (let (pg', es) = handle_error e (Some (e_strerror e (e_init_result e))) pg
                in (pg', EvInit (e_init_result e) # es))
          else
            let pg1 = pg\<lparr>handle := uv_init plat (handle pg)\<rparr>
            in if e_start_result e \<noteq> 0
               then (let (pg', es) = handle_error e (Some (e_strerror e (e_start_result e))) pg1
                     in (pg', EvInit 0 # EvStart (e_start_result e) # es))
               else (pg1\<lparr>handle := uv_start (handle pg1)\<rparr>, [EvInit 0, EvStart 0]))"

definition execute_next_query :: "platform \<Rightarrow> env \<Rightarrow> pg_async \<Rightarrow> pg_async \<times> event list" where
  "execute_next_query plat e pg =
     (case query_queue pg of
        [] \<Rightarrow> pg_async_destroy e (pg\<lparr>is_executing := False\<rparr>)
      | q # rest \<Rightarrow>
          let pg1 = pg\<lparr>current_query := Some q, query_queue := rest,
                       query_queue_tail := (if rest = [] then None else query_queue_tail pg)\<rparr>
          in if \<not> e_send_result e
             then (let (pg', es) = handle_error e (Some (e_error_message e)) pg1
                   in (pg', send_event q # es))
             else (let (pg', es) = arm_handle plat e pg1
                   in (pg', send_event q # es)))"

subsection \<open>pquv_execute\<close>

text \<open>
  The first component is the value \<^verbatim>\<open>pquv_execute\<close> returns; it is \<open>None\<close> when the
  call does not return because the process died in it.
\<close>

definition pquv_execute ::
  "platform \<Rightarrow> env \<Rightarrow> pg_async option \<Rightarrow> int option \<times> pg_async option \<times> event list" where
  "pquv_execute plat e pgo =
     (case pgo of
        None \<Rightarrow> (Some (- 1), None, [])
      | Some pg \<Rightarrow>
          if \<not> is_connected pg then (Some (- 1), Some pg, [])
          else if is_executing pg then (Some (- 1), Some pg, [])
          else if query_queue pg = []
          then (let (pg', es) = pg_async_destroy e pg
                in (if crashed es then None else Some 0, Some pg', es))
          else (let (pg', es) = execute_next_query plat e (pg\<lparr>is_executing := True\<rparr>)
                in (if crashed es then None else Some 0, Some pg', es)))"

subsection \<open>The readiness and timer callbacks\<close>

definition callback_events :: "pg_query option \<Rightarrow> pg_result \<Rightarrow> event list" where
  "callback_events qo r =
     (case qo of
        None \<Rightarrow> []
      | Some q \<Rightarrow> (case result_cb q of None \<Rightarrow> [] | Some cb \<Rightarrow> [EvResultCb cb r (q_data q)]))"

definition result_ok :: "pg_result \<Rightarrow> bool" where
  "result_ok r = (r_status r = PGRES_TUPLES_OK \<or> r_status r = PGRES_COMMAND_OK)"

text \<open>
  The loop \<^verbatim>\<open>while ((result = PQgetResult(pg->conn)) != NULL)\<close>, over the results the
  driver returns before \<^verbatim>\<open>NULL\<close>. The first component says whether the loop ran to its
  end; it is \<open>False\<close> when the body returned from the callback through the error path.
\<close>

fun drain :: "env \<Rightarrow> pg_result list \<Rightarrow> pg_async \<Rightarrow> bool \<times> pg_async \<times> event list" where
  "drain e [] pg = (True, pg, [])"
| "drain e (r # rs) pg =
     (if \<not> result_ok r
      then (let (pg', es) = handle_error e (Some (r_error r)) (pg\<lparr>current_query := None\<rparr>)
            in (False, pg',
                callback_events (current_query pg) r
                @ EvClear r # cleanup_query (current_query pg) @ es))
      else (let (fin, pg', es) = drain e rs pg
            in (fin, pg', callback_events (current_query pg) r @ EvClear r # es)))"

definition on_poll :: "env \<Rightarrow> pg_async \<Rightarrow> pg_async \<times> event list" where
  "on_poll e pg =
     (if \<not> h_data (handle pg) then (pg, [])
      else if destroying pg then (pg, [])
      else if e_status e < 0 then handle_error e (Some (e_strerror e (e_status e))) pg
      else if \<not> e_consume_input e then handle_error e (Some (e_error_message e)) pg
      else if e_is_busy e then (pg, [])
      else
        let (fin, pg1, es1) = drain e (e_results e) pg
        in if \<not> fin then (pg1, es1)
           else if stop_crashes (handle pg1) then (pg1, es1 @ [EvStop, EvCrash])
           else
             let pg2 = pg1\<lparr>handle := uv_stop (handle pg1)\<rparr>;
                 es2 = EvStop # cleanup_query (current_query pg2);
                 (pg3, es3) = execute_next_query Unix e (pg2\<lparr>current_query := None\<rparr>)
             in (pg3, es1 @ es2 @ es3))"

definition on_timer :: "env \<Rightarrow> pg_async \<Rightarrow> pg_async \<times> event list" where
  "on_timer e pg =
     (if \<not> h_data (handle pg) then (pg, [])
      else if destroying pg then (pg, [])
      else if \<not> e_consume_input e
      then (if stop_crashes (handle pg) then (pg, [EvStop, EvCrash])
            else
              let (pg', es) = handle_error e (Some (e_error_message e))
                                (pg\<lparr>handle := uv_stop (handle pg)\<rparr>)
              in (pg', EvStop # es))
      else if e_is_busy e then (pg, [])
      else if stop_crashes (handle pg) then (pg, [EvStop, EvCrash])
      else
        let pg1 = pg\<lparr>handle := uv_stop (handle pg)\<rparr>;
            (fin, pg2, es2) = drain e (e_results e) pg1
        in if \<not> fin then (pg2, EvStop # es2)
           else
             let es3 = cleanup_query (current_query pg2);
                 (pg4, es4) = execute_next_query Win32 e (pg2\<lparr>current_query := None\<rparr>)
             in (pg4, EvStop # es2 @ es3 @ es4))"

definition on_ready :: "platform \<Rightarrow> env \<Rightarrow> pg_async \<Rightarrow> pg_async \<times> event list" where
  "on_ready plat e pg = (case plat of Unix \<Rightarrow> on_poll e pg | Win32 \<Rightarrow> on_timer e pg)"

subsection \<open>The library on a reactor\<close>

text \<open>
  One entry into the library: a call of \<^verbatim>\<open>pquv_queue\<close> or \<^verbatim>\<open>pquv_execute\<close> by the
  user, the loop invoking the readiness or timer callback (libuv does so only while the
  handle is active), or the loop completing a requested close (once per \<^verbatim>\<open>uv_close\<close>:
  it marks the handle closed and invokes \<^verbatim>\<open>on_handle_closed\<close>). User callbacks are
  taken not to call back into the library. A sequence of entries ends with the entry
  in which the process dies.
\<close>

datatype action =
    Queue alloc "string option" int "(nat \<Rightarrow> string option) option" "nat option" nat
  | Execute env
  | Ready env
  | CloseDone

fun step :: "platform \<Rightarrow> action \<Rightarrow> pg_async \<Rightarrow> pg_async \<times> event list" where
  "step plat (Queue mem s n ps cb d) pg =
     (case snd (pquv_queue mem (Some pg) s n ps cb d) of
        None \<Rightarrow> (pg, [])
      | Some pg' \<Rightarrow> (pg', []))"
| "step plat (Execute e) pg =
     (case pquv_execute plat e (Some pg) of
        (r, None, es) \<Rightarrow> (pg, es)
      | (r, Some pg', es) \<Rightarrow> (pg', es))"
| "step plat (Ready e) pg =
     (if h_active (handle pg) then on_ready plat e pg else (pg, []))"
| "step plat CloseDone pg =
     (if h_closing (handle pg) \<and> \<not> h_closed (handle pg)
      then (let (pg', es) = on_handle_closed (pg\<lparr>handle := (handle pg)\<lparr>h_closed := True\<rparr>\<rparr>)
            in (pg', EvCloseCompleted # es))
      else (pg, []))"

fun run :: "platform \<Rightarrow> action list \<Rightarrow> pg_async \<Rightarrow> pg_async \<times> event list" where
  "run plat [] pg = (pg, [])"
| "run plat (a # as) pg =
     (let (pg1, es1) = step plat a pg
      in if crashed es1 then (pg1, es1)
         else (let (pg2, es2) = run plat as pg1 in (pg2, es1 @ es2)))"

subsection \<open>Notions used in the statements and proofs\<close>

text \<open>
  None of what follows is part of the source. \<open>destroyed\<close> and \<open>destroy_events\<close> are
  what \<^verbatim>\<open>pg_async_destroy\<close> returns on a context that is neither destroying nor
  executing; \<open>after_error\<close> and \<open>error_events\<close> are what \<^verbatim>\<open>handle_error\<close> does
  before it calls \<^verbatim>\<open>pg_async_destroy\<close>.
\<close>

definition destroyed :: "pg_async \<Rightarrow> pg_async" where
  "destroyed pg =
     (let pg3 = pg\<lparr>destroying := True, query_queue := [], query_queue_tail := None,
                   conn := (if conn pg \<noteq> None \<and> owns_connection pg then None else conn pg)\<rparr>
      in if h_type (handle pg) \<noteq> UV_UNKNOWN_HANDLE \<and> \<not> uv_is_closing (handle pg)
         then pg3\<lparr>handle := uv_close (handle pg)\<rparr> else pg3)"

definition destroy_events :: "pg_async \<Rightarrow> event list" where
  "destroy_events pg =
     map EvFreeQuery (query_queue pg)
     @ (if conn pg \<noteq> None \<and> owns_connection pg then [EvFinish] else [])
     @ (if h_type (handle pg) \<noteq> UV_UNKNOWN_HANDLE
        then (if uv_is_closing (handle pg) then [] else [EvClose])
        else (if error_message pg \<noteq> None then [EvFreeErrorMessage] else []) @ [EvFreePg])"

definition after_error :: "string option \<Rightarrow> pg_async \<Rightarrow> pg_async" where
  "after_error err pg =
     (if is_executing pg
      then pg\<lparr>handle := uv_stop (handle pg), is_executing := False\<rparr> else pg)
       \<lparr>error_message := err, query_queue := [], query_queue_tail := None\<rparr>"

definition error_events :: "pg_async \<Rightarrow> event list" where
  "error_events pg =
     (if is_executing pg then [EvStop] else [])
     @ (if error_message pg \<noteq> None then [EvFreeErrorMessage] else [])
     @ map EvFreeQuery (query_queue pg)"

text \<open>
  A handle is closing or closed only in a context that is being destroyed. \<open>pending\<close>
  bounds the frees of the context that can still happen: one while it is not being
  destroyed or while a requested close has not completed, none afterwards.
\<close>

definition closing_inv :: "pg_async \<Rightarrow> bool" where
  "closing_inv pg = (uv_is_closing (handle pg) \<longrightarrow> destroying pg)"

definition pending :: "pg_async \<Rightarrow> nat" where
  "pending pg = (if \<not> destroying pg then 1
                 else if h_closing (handle pg) \<and> \<not> h_closed (handle pg) then 1 else 0)"

text \<open>
  \<open>harmless\<close> events free no context, close no handle and finish no connection;
  \<open>prelude pg X\<close> says that \<open>X\<close> differs from \<open>pg\<close> in nothing the lifecycle depends
  on. \<open>step_ok\<close> collects what every call into the library guarantees, \<open>run_ok\<close> what
  every sequence of entries guarantees.
\<close>

definition harmless :: "event list \<Rightarrow> bool" where
  "harmless es \<longleftrightarrow>
     EvFreePg \<notin> set es \<and> EvClose \<notin> set es \<and> EvFinish \<notin> set es \<and> EvCloseCompleted \<notin> set es"

definition prelude :: "pg_async \<Rightarrow> pg_async \<Rightarrow> bool" where
  "prelude pg X \<longleftrightarrow>
     destroying X = destroying pg \<and> owns_connection X = owns_connection pg \<and>
     conn X = conn pg \<and> (h_data (handle pg) \<longrightarrow> h_data (handle X)) \<and>
     (closing_inv pg \<longrightarrow> closing_inv X) \<and> pending X \<le> pending pg"

definition step_ok :: "pg_async \<Rightarrow> pg_async \<Rightarrow> event list \<Rightarrow> bool" where
  "step_ok pg pg' es \<longleftrightarrow>
     (destroying pg \<longrightarrow> destroying pg' \<and> EvFreePg \<notin> set es \<and> EvClose \<notin> set es) \<and>
     (\<not> owns_connection pg \<longrightarrow>
        \<not> owns_connection pg' \<and> conn pg' = conn pg \<and> EvFinish \<notin> set es) \<and>
     (h_data (handle pg) \<longrightarrow> h_data (handle pg')) \<and>
     EvCloseCompleted \<notin> set es \<and>
     (closing_inv pg \<longrightarrow>
        closing_inv pg' \<and> count_list es EvFreePg + pending pg' \<le> pending pg) \<and>
     (\<not> destroying pg' \<longrightarrow> EvFreePg \<notin> set es \<and> EvClose \<notin> set es) \<and>
     (\<not> destroying pg \<and> destroying pg' \<and> closing_inv pg \<longrightarrow>
        (if h_type (handle pg') = UV_UNKNOWN_HANDLE
         then count_list es EvFreePg = 1 \<and> EvClose \<notin> set es \<and> \<not> h_closing (handle pg')
         else EvFreePg \<notin> set es \<and> count_list es EvClose = 1
              \<and> h_closing (handle pg') \<and> \<not> h_closed (handle pg')))"

definition run_ok :: "pg_async \<Rightarrow> pg_async \<Rightarrow> event list \<Rightarrow> bool" where
  "run_ok pg pg' es \<longleftrightarrow>
     (destroying pg \<longrightarrow> destroying pg') \<and>
     (\<not> owns_connection pg \<longrightarrow>
        \<not> owns_connection pg' \<and> conn pg' = conn pg \<and> EvFinish \<notin> set es) \<and>
     (h_data (handle pg) \<longrightarrow> h_data (handle pg')) \<and>
     (closing_inv pg \<longrightarrow>
        closing_inv pg' \<and> count_list es EvFreePg + pending pg' \<le> pending pg \<and>
        (\<not> destroying pg' \<longrightarrow> EvFreePg \<notin> set es \<and> EvClose \<notin> set es))"

text \<open>
  \<open>dispatch_ok\<close>: the driver accepts the query and the loop accepts the handle.
  \<open>is_callback\<close> and \<open>is_send\<close> pick the calls of user callbacks and the sends to the
  driver out of a trace.
\<close>

definition dispatch_ok :: "platform \<Rightarrow> env \<Rightarrow> bool" where
  "dispatch_ok plat e \<longleftrightarrow>
     e_send_result e \<and> (plat = Win32 \<or> 0 \<le> e_sock e) \<and> e_init_result e = 0 \<and> e_start_result e = 0"

definition is_callback :: "event \<Rightarrow> bool" where
  "is_callback ev = (case ev of EvResultCb cb r d \<Rightarrow> True | _ \<Rightarrow> False)"

definition is_send :: "event \<Rightarrow> bool" where
  "is_send ev = (case ev of EvSendQuery s \<Rightarrow> True | EvSendQueryParams s n ps \<Rightarrow> True | _ \<Rightarrow> False)"

text \<open>
  \<open>ready_ok\<close>: the callback gets past its checks to the loop over the results (no poll
  error, \<^verbatim>\<open>PQconsumeInput\<close> succeeded, the driver is not busy). \<open>drain_events\<close> are the
  calls of that loop over results that are all delivered. \<open>is_reactor\<close>: an entry made
  by the loop, not by the user.
\<close>

definition ready_ok :: "platform \<Rightarrow> env \<Rightarrow> bool" where
  "ready_ok plat e \<longleftrightarrow> (plat = Win32 \<or> 0 \<le> e_status e) \<and> e_consume_input e \<and> \<not> e_is_busy e"

definition drain_events :: "pg_query option \<Rightarrow> pg_result list \<Rightarrow> event list" where
  "drain_events qo rs = concat (map (\<lambda>r. callback_events qo r @ [EvClear r]) rs)"

definition is_reactor :: "action \<Rightarrow> bool" where
  "is_reactor a = (case a of Ready e \<Rightarrow> True | CloseDone \<Rightarrow> True | _ \<Rightarrow> False)"

definition is_free_query :: "event \<Rightarrow> bool" where
  "is_free_query ev = (case ev of EvFreeQuery q \<Rightarrow> True | _ \<Rightarrow> False)"

definition is_clear :: "event \<Rightarrow> bool" where
  "is_clear ev = (case ev of EvClear r \<Rightarrow> True | _ \<Rightarrow> False)"

text \<open>
  \<open>good_env\<close>: every answer of the driver and of the loop during one callback is a
  success. \<open>awaiting pg q\<close>: the query \<open>q\<close> has been sent and the armed handle waits for
  its results. \<open>op_events\<close> are the calls of one callback that drains all results of \<open>q\<close>.
\<close>

definition good_env :: "platform \<Rightarrow> env \<Rightarrow> bool" where
  "good_env plat e \<longleftrightarrow>
     dispatch_ok plat e \<and> (plat = Win32 \<or> 0 \<le> e_status e) \<and> e_consume_input e \<and>
     (\<forall>r\<in>set (e_results e). result_ok r)"

definition awaiting :: "pg_async \<Rightarrow> pg_query \<Rightarrow> bool" where
  "awaiting pg q \<longleftrightarrow>
     h_data (handle pg) \<and> \<not> destroying pg \<and> is_executing pg \<and> current_query pg = Some q \<and>
     h_active (handle pg) \<and> h_type (handle pg) \<noteq> UV_UNKNOWN_HANDLE \<and>
     \<not> uv_is_closing (handle pg) \<and> \<not> owns_connection pg"

definition op_events :: "platform \<Rightarrow> pg_query \<Rightarrow> pg_result list \<Rightarrow> event list" where
  "op_events plat q rs =
     (case plat of
        Unix \<Rightarrow> drain_events (Some q) rs @ [EvStop, EvFreeQuery q]
      | Win32 \<Rightarrow> EvStop # drain_events (Some q) rs @ [EvFreeQuery q])"

text \<open>
  A submission is one call of \<^verbatim>\<open>pquv_queue\<close> with a context and a query text that are
  not \<^verbatim>\<open>NULL\<close>; it is \<open>accepted\<close> when the allocations of the call succeed, and
  \<open>queued\<close> is the query it appends. \<open>expected_callbacks\<close> follows the words of the
  claim: the \<open>i\<close>-th submission gets one callback for each result of the \<open>i\<close>-th drained
  response, in the order the driver returned them, with the callback and user data it was
  submitted with. \<open>drained\<close> are the responses of the callbacks in which the driver was
  not busy.
\<close>

record submission =
  s_mem :: alloc
  s_sql :: string
  s_count :: int
  s_params :: "(nat \<Rightarrow> string option) option"
  s_cb :: "nat option"
  s_data :: nat

definition submit :: "submission \<Rightarrow> action" where
  "submit s = Queue (s_mem s) (Some (s_sql s)) (s_count s) (s_params s) (s_cb s) (s_data s)"

definition accepted :: "submission \<Rightarrow> bool" where
  "accepted s \<longleftrightarrow>
     a_calloc (s_mem s) \<and> a_strdup_sql (s_mem s) \<and>
     (a_malloc_params (s_mem s) \<or> s_count s \<le> 0 \<or> s_params s = None)"

definition queued :: "submission \<Rightarrow> pg_query" where
  "queued s = new_query (s_mem s) (s_sql s) (s_count s) (s_params s) (s_cb s) (s_data s)"

definition callbacks_for :: "submission \<Rightarrow> pg_result list \<Rightarrow> event list" where
  "callbacks_for s rs =
     (case s_cb s of None \<Rightarrow> [] | Some cb \<Rightarrow> map (\<lambda>r. EvResultCb cb r (s_data s)) rs)"

definition expected_callbacks :: "submission list \<Rightarrow> pg_result list list \<Rightarrow> event list" where
  "expected_callbacks subs rss = concat (map2 callbacks_for subs rss)"

definition drained :: "env list \<Rightarrow> pg_result list list" where
  "drained envs = map e_results (filter (\<lambda>e. \<not> e_is_busy e) envs)"

definition op_callbacks :: "pg_query \<Rightarrow> pg_result list \<Rightarrow> event list" where
  "op_callbacks q rs = concat (map (callback_events (Some q)) rs)"

text \<open>
  \<open>before_stop\<close> are the calls made before the handle is first disarmed.
  \<open>disarmed_before_loop\<close> follows the words of claim C9: no result is delivered to a
  callback or cleared before the handle is disarmed.
\<close>

definition before_stop :: "event list \<Rightarrow> event list" where
  "before_stop es = takeWhile (\<lambda>ev. ev \<noteq> EvStop) es"

definition disarmed_before_loop :: "event list \<Rightarrow> bool" where
  "disarmed_before_loop es \<longleftrightarrow>
     filter is_callback (before_stop es) = [] \<and> filter is_clear (before_stop es) = []"

text \<open>
  \<open>tail_ok\<close>: \<^verbatim>\<open>query_queue_tail\<close> points to the last query of the queue, so that
  appending through it, as \<^verbatim>\<open>pquv_queue\<close> does, appends to the list.
\<close>

definition tail_ok :: "pg_async \<Rightarrow> bool" where
  "tail_ok pg \<longleftrightarrow>
     query_queue_tail pg
       = (if query_queue pg = [] then None else Some (last (query_queue pg)))"

subsection \<open>Example inputs\<close>

definition ok_mem :: alloc where
  "ok_mem = \<lparr>a_calloc = True, a_strdup_sql = True, a_malloc_params = True,
             a_strdup_param = (\<lambda>_. True)\<rparr>"

definition ok_env :: "pg_result list \<Rightarrow> env" where
  "ok_env rs =
     \<lparr>e_send_result = True, e_sock = 5, e_init_result = 0, e_start_result = 0,
      e_cancel = True, e_status = 0, e_consume_input = True, e_is_busy = False,
      e_results = rs, e_error_message = ''driver error'', e_strerror = (\<lambda>_. ''uv error'')\<rparr>"

definition res :: "nat \<Rightarrow> exec_status \<Rightarrow> pg_result" where
  "res i st = \<lparr>r_id = i, r_status = st, r_error = ''failed''\<rparr>"

definition fresh :: pg_async where
  "fresh =
     \<lparr>conn = Some 1, owns_connection = False, is_connected = True, is_executing = False,
      destroying = False, handle_initialized = False,
      handle = \<lparr>h_type = UV_UNKNOWN_HANDLE, h_data = True, h_active = False,
                h_closing = False, h_closed = False\<rparr>,
      query_queue = [], query_queue_tail = None, current_query = None,
      error_message = None, user_data = 0\<rparr>"

text \<open>Two queries, a context that waits for the results of the first, and two submissions.\<close>

definition query_a :: pg_query where
  "query_a = \<lparr>sql = ''SELECT 1'', params = None, param_count = 0, result_cb = Some 7, q_data = 0\<rparr>"

definition query_b :: pg_query where
  "query_b = \<lparr>sql = ''SELECT 2'', params = None, param_count = 0, result_cb = Some 8, q_data = 0\<rparr>"

definition waiting :: pg_async where
  "waiting =
     \<lparr>conn = Some 1, owns_connection = False, is_connected = True, is_executing = True,
      destroying = False, handle_initialized = False,
      handle = \<lparr>h_type = UV_POLL, h_data = True, h_active = True,
                h_closing = False, h_closed = False\<rparr>,
      query_queue = [query_b], query_queue_tail = Some query_b, current_query = Some query_a,
      error_message = None, user_data = 0\<rparr>"

definition sub_a :: submission where
  "sub_a = \<lparr>s_mem = ok_mem, s_sql = ''SELECT 1'', s_count = 0, s_params = None,
            s_cb = Some 7, s_data = 0\<rparr>"

definition sub_b :: submission where
  "sub_b = \<lparr>s_mem = ok_mem, s_sql = ''SELECT 2'', s_count = 0, s_params = None,
            s_cb = Some 8, s_data = 5\<rparr>"

section \<open>Auxiliary lemmas\<close>

lemma free_queue_map: "free_queue qs = map EvFreeQuery qs"
  by (induction qs) (simp_all add: cleanup_query_def)

lemma crashed_simps [simp]:
  "\<not> crashed []"
  "crashed (x # es) \<longleftrightarrow> x = EvCrash \<or> crashed es"
  "crashed (es @ es') \<longleftrightarrow> crashed es \<or> crashed es'"
  "\<not> crashed (map EvFreeQuery qs)"
  "\<not> crashed (cleanup_query qo)"
  "\<not> crashed (callback_events qo r)"
  "\<not> crashed (destroy_events pg)"
  "\<not> crashed (error_events pg)"
  "send_event q \<noteq> EvCrash"
  by (auto simp: crashed_def cleanup_query_def callback_events_def destroy_events_def
      error_events_def send_event_def split: option.splits)

lemma cancel_idle:
  "\<not> is_executing pg \<Longrightarrow>
   pg_async_cancel e pg =
     (pg\<lparr>query_queue := [], query_queue_tail := None\<rparr>, map EvFreeQuery (query_queue pg))"
  by (simp add: pg_async_cancel_def free_queue_map)

lemma cancel_busy:
  "is_executing pg \<Longrightarrow> \<not> stop_crashes (handle pg) \<Longrightarrow>
   pg_async_cancel e pg =
     (pg\<lparr>handle := uv_stop (handle pg), is_executing := False,
         query_queue := [], query_queue_tail := None\<rparr>,
      EvStop # (if e_cancel e then [EvCancel] else []) @ map EvFreeQuery (query_queue pg))"
  by (simp add: pg_async_cancel_def free_queue_map)

lemma destroy_idle:
  "\<not> destroying pg \<Longrightarrow> \<not> is_executing pg \<Longrightarrow>
   pg_async_destroy e pg = (destroyed pg, destroy_events pg)"
  by (simp add: pg_async_destroy_def cancel_idle destroyed_def destroy_events_def Let_def)

lemma destroy_again: "destroying pg \<Longrightarrow> pg_async_destroy e pg = (pg, [])"
  by (simp add: pg_async_destroy_def)

lemma handle_error_crash:
  "is_executing pg \<Longrightarrow> stop_crashes (handle pg) \<Longrightarrow>
   handle_error e err pg = (pg, [EvStop, EvCrash])"
  by (simp add: handle_error_def)

lemma handle_error_live:
  "\<not> destroying pg \<Longrightarrow> \<not> (is_executing pg \<and> stop_crashes (handle pg)) \<Longrightarrow>
   handle_error e err pg =
     (destroyed (after_error err pg), error_events pg @ destroy_events (after_error err pg))"
  by (simp add: handle_error_def cancel_idle destroy_idle Let_def destroy_events_def
        after_error_def error_events_def)

lemma handle_error_dead:
  "destroying pg \<Longrightarrow> \<not> (is_executing pg \<and> stop_crashes (handle pg)) \<Longrightarrow>
   handle_error e err pg = (after_error err pg, error_events pg)"
  by (simp add: handle_error_def cancel_idle destroy_again Let_def after_error_def
        error_events_def)

lemma count_map_FreeQuery [simp]:
  "count_list (map EvFreeQuery qs) EvFreePg = 0" "count_list (map EvFreeQuery qs) EvClose = 0"
  by (induction qs) auto

lemma harmless_simps [simp]:
  "harmless []"
  "harmless (es @ es') \<longleftrightarrow> harmless es \<and> harmless es'"
  "harmless (x # es) \<longleftrightarrow> x \<noteq> EvFreePg \<and> x \<noteq> EvClose \<and> x \<noteq> EvFinish \<and> x \<noteq> EvCloseCompleted \<and> harmless es"
  "harmless (map EvFreeQuery qs)"
  "harmless (cleanup_query qo)"
  "harmless (callback_events qo r)"
  by (auto simp: harmless_def cleanup_query_def callback_events_def split: option.splits)

lemma harmless_count:
  "harmless es \<Longrightarrow> count_list es EvFreePg = 0 \<and> count_list es EvClose = 0"
  by (simp add: harmless_def)

lemma step_ok_prelude:
  "prelude pg X \<Longrightarrow> harmless pre \<Longrightarrow> step_ok pg X pre"
  unfolding step_ok_def prelude_def
  by (simp add: harmless_count) (simp add: harmless_def)

lemma step_ok_pre:
  assumes "step_ok X pg' es" "prelude pg X" "harmless pre"
  shows "step_ok pg pg' (pre @ es)"
proof -
  have c: "count_list pre EvFreePg = 0" "count_list pre EvClose = 0"
    using assms(3) by (simp_all add: harmless_count)
  have h: "EvFreePg \<notin> set pre" "EvClose \<notin> set pre" "EvFinish \<notin> set pre" "EvCloseCompleted \<notin> set pre"
    using assms(3) by (simp_all add: harmless_def)
  show ?thesis
    using assms(1,2) unfolding step_ok_def prelude_def
    by (simp add: c h) (metis le_trans)
qed

lemma prelude_refl [simp]: "prelude pg pg"
  by (simp add: prelude_def)

lemma destroy_idle_ok:
  "\<not> destroying pg \<Longrightarrow> step_ok pg (destroyed pg) (destroy_events pg)"
  unfolding step_ok_def
  by (simp add: destroyed_def destroy_events_def closing_inv_def pending_def uv_is_closing_def uv_close_def Let_def image_iff)

lemma harmless_error_events [simp]: "harmless (error_events pg)"
  by (simp add: error_events_def)

lemma prelude_after_error [simp]: "prelude pg (after_error err pg)"
  by (simp add: prelude_def after_error_def closing_inv_def pending_def uv_is_closing_def
        uv_stop_def)

lemma handle_error_ok: "step_ok pg (fst (handle_error e err pg)) (snd (handle_error e err pg))"
proof (cases "is_executing pg \<and> stop_crashes (handle pg)")
  case True
  then show ?thesis by (simp add: handle_error_crash step_ok_prelude)
next
  case nc: False
  show ?thesis
  proof (cases "destroying pg")
    case True
    then show ?thesis using nc by (simp add: handle_error_dead step_ok_prelude)
  next
    case False
    then have "\<not> destroying (after_error err pg)" by (simp add: after_error_def)
    from destroy_idle_ok[OF this] False nc show ?thesis
      by (simp add: handle_error_live step_ok_pre)
  qed
qed

lemma step_ok_cons:
  "step_ok X pg' es \<Longrightarrow> prelude pg X \<Longrightarrow> harmless [x] \<Longrightarrow> step_ok pg pg' (x # es)"
  using step_ok_pre[of X pg' es pg "[x]"] by simp

lemma prelude_armed:
  "prelude pg (pg\<lparr>handle := uv_init plat (handle pg)\<rparr>)"
  "prelude pg (pg\<lparr>handle := (uv_init plat (handle pg))\<lparr>h_data := True\<rparr>\<rparr>)"
  "prelude pg (pg\<lparr>handle := uv_start (uv_init plat (handle pg))\<rparr>)"
  "prelude pg (pg\<lparr>handle := uv_start ((uv_init plat (handle pg))\<lparr>h_data := True\<rparr>)\<rparr>)"
  by (simp_all add: prelude_def closing_inv_def pending_def uv_is_closing_def uv_init_def uv_start_def)

lemma prelude_trans: "prelude a b \<Longrightarrow> prelude b c \<Longrightarrow> prelude a c"
  unfolding prelude_def by auto

lemma step_ok_cons2:
  "step_ok X pg' es \<Longrightarrow> prelude pg X \<Longrightarrow> harmless [x, y] \<Longrightarrow> step_ok pg pg' (x # y # es)"
  using step_ok_pre[of X pg' es pg "[x, y]"] by simp

lemma step_ok_from:
  "step_ok X pg' es \<Longrightarrow> prelude pg X \<Longrightarrow> step_ok pg pg' es"
  using step_ok_pre[of X pg' es pg "[]"] by simp

lemmas handle_error_after =
  step_ok_from[OF handle_error_ok] step_ok_cons[OF handle_error_ok]
  step_ok_cons2[OF handle_error_ok] step_ok_pre[OF handle_error_ok]

lemma arm_handle_ok: "step_ok pg (fst (arm_handle plat e pg)) (snd (arm_handle plat e pg))"
proof (cases plat)
  case Unix
  then show ?thesis
    by (simp add: arm_handle_def Let_def split_beta handle_error_after
          step_ok_prelude prelude_armed)
next
  case Win32
  then show ?thesis
    by (simp add: arm_handle_def Let_def split_beta handle_error_after
          step_ok_prelude prelude_armed)
qed

lemma prelude_fields [simp]:
  "prelude pg (pg\<lparr>current_query := c\<rparr>)"
  "prelude pg (pg\<lparr>current_query := c, query_queue := qs, query_queue_tail := t\<rparr>)"
  "prelude pg (pg\<lparr>is_executing := b\<rparr>)"
  "prelude pg (pg\<lparr>handle := uv_stop (handle pg)\<rparr>)"
  "prelude pg (pg\<lparr>handle := uv_stop (handle pg), current_query := c\<rparr>)"
  "prelude pg (pg\<lparr>query_queue := qs, query_queue_tail := t\<rparr>)"
  by (simp_all add: prelude_def closing_inv_def pending_def uv_is_closing_def uv_stop_def)

lemma destroy_ok_idle':
  "\<not> is_executing pg \<Longrightarrow> step_ok pg (fst (pg_async_destroy e pg)) (snd (pg_async_destroy e pg))"
  by (cases "destroying pg") (simp_all add: destroy_again destroy_idle destroy_idle_ok step_ok_prelude)

lemma harmless_send [simp]: "send_event q \<noteq> EvFreePg" "send_event q \<noteq> EvClose"
  "send_event q \<noteq> EvFinish" "send_event q \<noteq> EvCloseCompleted"
  by (simp_all add: send_event_def)

lemmas arm_handle_after =
  step_ok_from[OF arm_handle_ok] step_ok_cons[OF arm_handle_ok]

lemma execute_next_query_ok:
  "step_ok pg (fst (execute_next_query plat e pg)) (snd (execute_next_query plat e pg))"
proof (cases "query_queue pg")
  case Nil
  have "step_ok (pg\<lparr>is_executing := False\<rparr>) (fst (pg_async_destroy e (pg\<lparr>is_executing := False\<rparr>)))
     (snd (pg_async_destroy e (pg\<lparr>is_executing := False\<rparr>)))"
    by (rule destroy_ok_idle') simp
  then show ?thesis using Nil
    by (simp add: execute_next_query_def step_ok_from)
next
  case (Cons q rest)
  then show ?thesis
    by (simp add: execute_next_query_def Let_def split_beta handle_error_after arm_handle_after)
qed

lemma drain_ok: "step_ok pg (fst (snd (drain e rs pg))) (snd (snd (drain e rs pg)))"
proof (induction rs)
  case Nil
  then show ?case by (simp add: step_ok_prelude)
next
  case (Cons r rs)
  show ?case
  proof (cases "result_ok r")
    case True
    with Cons show ?thesis
      using step_ok_pre[of pg _ _ pg "callback_events (current_query pg) r @ [EvClear r]"]
      by (simp add: split_beta)
  next
    case False
    then show ?thesis
      using handle_error_after(4)[of pg "pg\<lparr>current_query := None\<rparr>"
          "callback_events (current_query pg) r @ EvClear r # cleanup_query (current_query pg)"
          e "Some (r_error r)"]
      by (simp add: split_beta)
  qed
qed

lemma drain_fin:
  "fst (drain e rs pg) \<Longrightarrow> fst (snd (drain e rs pg)) = pg \<and> harmless (snd (snd (drain e rs pg)))"
  by (induction rs) (simp_all add: split_beta split: if_splits)

lemmas execute_next_query_after = step_ok_pre[OF execute_next_query_ok]

lemma on_poll_ok: "step_ok pg (fst (on_poll e pg)) (snd (on_poll e pg))"
proof -
  have fin: "step_ok pg
       (fst (execute_next_query Unix e (pg\<lparr>handle := uv_stop (handle pg), current_query := None\<rparr>)))
       (es1 @ EvStop # cleanup_query (current_query pg)
        @ snd (execute_next_query Unix e (pg\<lparr>handle := uv_stop (handle pg), current_query := None\<rparr>)))"
    if "harmless es1" for es1
    using execute_next_query_after[of pg
        "pg\<lparr>handle := uv_stop (handle pg), current_query := None\<rparr>"
        "es1 @ EvStop # cleanup_query (current_query pg)" Unix e] that
    by simp
  show ?thesis
  proof (cases "fst (drain e (e_results e) pg)")
    case True
    with drain_fin[OF True] fin show ?thesis
      by (simp add: on_poll_def Let_def split_beta handle_error_ok step_ok_prelude)
  next
    case False
    with drain_ok[of pg e "e_results e"] show ?thesis
      by (simp add: on_poll_def Let_def split_beta handle_error_ok step_ok_prelude)
  qed
qed

lemma on_timer_ok: "step_ok pg (fst (on_timer e pg)) (snd (on_timer e pg))"
proof -
  let ?pg1 = "pg\<lparr>handle := uv_stop (handle pg)\<rparr>"
  have fin: "step_ok pg
       (fst (execute_next_query Win32 e (?pg1\<lparr>current_query := None\<rparr>)))
       (EvStop # es1 @ cleanup_query (current_query pg)
        @ snd (execute_next_query Win32 e (?pg1\<lparr>current_query := None\<rparr>)))"
    if "harmless es1" for es1
    using execute_next_query_after[of pg "?pg1\<lparr>current_query := None\<rparr>"
        "EvStop # es1 @ cleanup_query (current_query pg)" Win32 e] that
    by simp
  have nofin: "step_ok pg (fst (snd (drain e (e_results e) ?pg1)))
       (EvStop # snd (snd (drain e (e_results e) ?pg1)))"
    using step_ok_cons[OF drain_ok, of pg ?pg1 EvStop] by simp
  show ?thesis
  proof (cases "fst (drain e (e_results e) ?pg1)")
    case True
    with drain_fin[OF True] fin show ?thesis
      by (simp add: on_timer_def Let_def split_beta handle_error_after step_ok_prelude)
  next
    case False
    with nofin show ?thesis
      by (simp add: on_timer_def Let_def split_beta handle_error_after step_ok_prelude)
  qed
qed

lemma on_ready_ok: "step_ok pg (fst (on_ready plat e pg)) (snd (on_ready plat e pg))"
  by (cases plat) (simp_all add: on_ready_def on_poll_ok on_timer_ok)

lemma execute_step_ok: "step_ok pg (fst (step plat (Execute e) pg)) (snd (step plat (Execute e) pg))"
  using step_ok_from[OF execute_next_query_ok, of pg "pg\<lparr>is_executing := True\<rparr>" plat e]
  by (simp add: pquv_execute_def split_beta destroy_ok_idle' step_ok_prelude)

lemma queue_step_ok:
  "step_ok pg (fst (step plat (Queue mem s n ps cb d) pg)) (snd (step plat (Queue mem s n ps cb d) pg))"
  by (simp add: pquv_queue_def Let_def step_ok_prelude split: option.splits)

lemma ready_step_ok: "step_ok pg (fst (step plat (Ready e) pg)) (snd (step plat (Ready e) pg))"
  by (simp add: on_ready_ok step_ok_prelude)

lemma step_ok_run_ok: "step_ok pg pg' es \<Longrightarrow> run_ok pg pg' es"
  by (simp add: step_ok_def run_ok_def)

lemma step_cases_ok:
  "a \<noteq> CloseDone \<Longrightarrow> step_ok pg (fst (step plat a pg)) (snd (step plat a pg))"
  by (cases a) (simp_all add: queue_step_ok execute_step_ok ready_step_ok del: step.simps)

lemma close_done_run_ok:
  "run_ok pg (fst (step plat CloseDone pg)) (snd (step plat CloseDone pg))"
  by (simp add: run_ok_def on_handle_closed_def closing_inv_def pending_def uv_is_closing_def
        split_beta)

lemma step_run_ok: "run_ok pg (fst (step plat a pg)) (snd (step plat a pg))"
  by (cases "a = CloseDone")
     (simp_all add: close_done_run_ok step_cases_ok step_ok_run_ok del: step.simps)

lemma run_ok_trans:
  "run_ok a b es \<Longrightarrow> run_ok b c es' \<Longrightarrow> run_ok a c (es @ es')"
  unfolding run_ok_def by auto

lemma run_run_ok: "run_ok pg (fst (run plat acts pg)) (snd (run plat acts pg))"
proof (induction acts arbitrary: pg)
  case Nil
  show ?case by (simp add: run_ok_def)
next
  case (Cons a acts)
  show ?case
    using run_ok_trans[OF step_run_ok[of pg plat a] Cons[of "fst (step plat a pg)"]]
      step_run_ok[of pg plat a]
    by (simp add: split_beta del: step.simps)
qed

lemma created_inv:
  "pquv_create mem c st d = Some pg \<Longrightarrow>
   \<not> owns_connection pg \<and> conn pg = c \<and> h_data (handle pg) \<and> closing_inv pg
   \<and> \<not> destroying pg \<and> h_type (handle pg) = UV_UNKNOWN_HANDLE"
  by (auto simp: pquv_create_def closing_inv_def uv_is_closing_def zeroed_handle_def
      split: option.splits if_splits)

lemma create_fresh: "pquv_create ok_mem (Some 1) CONNECTION_OK 0 = Some fresh"
  by (simp add: pquv_create_def ok_mem_def fresh_def zeroed_handle_def)

lemma handle_error_current [simp]:
  "current_query (fst (handle_error e err pg)) = current_query pg"
proof (cases "is_executing pg \<and> stop_crashes (handle pg)")
  case True
  then show ?thesis by (simp add: handle_error_crash)
next
  case False
  then show ?thesis
    by (cases "destroying pg")
       (simp_all add: handle_error_live handle_error_dead destroyed_def after_error_def Let_def)
qed

lemma arm_handle_current [simp]:
  "current_query (fst (arm_handle plat e pg)) = current_query pg"
  by (cases plat) (simp_all add: arm_handle_def Let_def split_beta)

lemma arm_handle_success:
  "dispatch_ok plat e \<Longrightarrow>
   arm_handle plat e pg =
     (pg\<lparr>handle := uv_start ((uv_init plat (handle pg))\<lparr>h_data := (plat = Win32 \<or> h_data (handle pg))\<rparr>)\<rparr>,
      [EvInit 0, EvStart 0])"
  by (cases plat) (auto simp: arm_handle_def dispatch_ok_def Let_def uv_init_def uv_start_def)

lemma execute_next_query_success:
  "dispatch_ok plat e \<Longrightarrow> query_queue pg = q # rest \<Longrightarrow>
   execute_next_query plat e pg =
     (pg\<lparr>current_query := Some q, query_queue := rest,
         query_queue_tail := (if rest = [] then None else query_queue_tail pg),
         handle := uv_start ((uv_init plat (handle pg))\<lparr>h_data := (plat = Win32 \<or> h_data (handle pg))\<rparr>)\<rparr>,
      [send_event q, EvInit 0, EvStart 0])"
  by (simp add: execute_next_query_def arm_handle_success Let_def) (simp add: dispatch_ok_def)

lemma execute_next_query_head:
  "query_queue pg = q # rest \<Longrightarrow>
   \<exists>es. snd (execute_next_query plat e pg) = send_event q # es
        \<and> current_query (fst (execute_next_query plat e pg)) = Some q"
  by (simp add: execute_next_query_def Let_def split_beta)

lemma copy_params_ok:
  "\<forall>i < nat k. a_strdup_param mem i \<Longrightarrow> copy_params mem k ps = map ps [0 ..< nat k]"
  by (auto simp: copy_params_def split: option.splits)

lemmas eval_defs =
  pquv_queue_def new_query_def copy_params_def pquv_execute_def execute_next_query_def
  arm_handle_def handle_error_def pg_async_destroy_def pg_async_cancel_def on_handle_closed_def
  on_ready_def on_poll_def on_timer_def cleanup_query_def callback_events_def result_ok_def
  send_event_def uv_init_def uv_start_def uv_stop_def uv_close_def uv_is_closing_def
  stop_crashes_def crashed_def ok_env_def ok_mem_def fresh_def res_def Let_def

lemma destroy_not_crashed:
  "\<not> is_executing pg \<Longrightarrow> \<not> crashed (snd (pg_async_destroy e pg))"
  by (cases "destroying pg") (simp_all add: destroy_again destroy_idle)

lemma params_reach_driver:
  assumes "a_calloc mem" "a_strdup_sql mem" "a_malloc_params mem"
    and "\<forall>i < nat k. a_strdup_param mem i"
    and "query_queue pg2 = new_query mem s k (Some ps) cb d # rest"
  shows "pquv_queue mem (Some pg) (Some s) k (Some ps) cb d
           = (0, Some (pg\<lparr>query_queue := query_queue pg @ [new_query mem s k (Some ps) cb d],
                           query_queue_tail := Some (new_query mem s k (Some ps) cb d)\<rparr>)) \<and>
         (\<exists>vs es. snd (execute_next_query plat e pg2)
                     = (if 0 < k then EvSendQueryParams s k (Some vs) else EvSendQuery s) # es \<and>
                  length vs = nat k \<and> vs = map ps [0 ..< nat k])"
proof -
  have se: "send_event (new_query mem s k (Some ps) cb d)
           = (if 0 < k then EvSendQueryParams s k (Some (map ps [0 ..< nat k])) else EvSendQuery s)"
    using assms(4) by (simp add: send_event_def new_query_def copy_params_ok)
  from execute_next_query_head[OF assms(5), of plat e] obtain es where
    "snd (execute_next_query plat e pg2) = send_event (new_query mem s k (Some ps) cb d) # es"
    by blast
  then show ?thesis using assms(1-3) se
    by (simp add: pquv_queue_def Let_def)
qed

lemma drain_events_simps [simp]:
  "drain_events qo [] = []"
  "drain_events qo (r # rs) = callback_events qo r @ EvClear r # drain_events qo rs"
  "drain_events qo (rs @ rs') = drain_events qo rs @ drain_events qo rs'"
  by (simp_all add: drain_events_def)

lemma drain_all_ok:
  "\<forall>r\<in>set rs. result_ok r \<Longrightarrow> drain e rs pg = (True, pg, drain_events (current_query pg) rs)"
  by (induction rs) simp_all

lemma drain_fail:
  "\<forall>r\<in>set good. result_ok r \<Longrightarrow> \<not> result_ok bad \<Longrightarrow>
   drain e (good @ bad # later) pg =
     (False, fst (handle_error e (Some (r_error bad)) (pg\<lparr>current_query := None\<rparr>)),
      drain_events (current_query pg) good @ callback_events (current_query pg) bad
      @ EvClear bad # cleanup_query (current_query pg)
      @ snd (handle_error e (Some (r_error bad)) (pg\<lparr>current_query := None\<rparr>)))"
  by (induction good) (simp_all add: split_beta)

lemma filter_callback_simps [simp]:
  "filter is_callback (callback_events qo r) = callback_events qo r"
  "filter is_callback (cleanup_query qo) = []"
  "filter is_callback (map EvFreeQuery qs) = []"
  "filter is_callback (error_events pg) = []"
  "filter is_callback (destroy_events pg) = []"
  "\<not> is_callback (EvClear r)" "\<not> is_callback EvStop" "\<not> is_callback (EvInit i)"
  "\<not> is_callback (EvStart i)" "\<not> is_callback (EvFreeQuery q)" "\<not> is_callback (send_event q)"
  "\<not> is_callback EvClose" "\<not> is_callback EvCloseCompleted" "\<not> is_callback EvFreePg"
  "\<not> is_callback EvFreeErrorMessage"
  by (simp_all add: is_callback_def callback_events_def cleanup_query_def error_events_def
      destroy_events_def send_event_def split: option.splits)

lemma filter_callback_drain [simp]:
  "filter is_callback (drain_events qo rs) = concat (map (callback_events qo) rs)"
  by (induction rs) simp_all

lemma filter_send_simps [simp]:
  "filter is_send (callback_events qo r) = []"
  "filter is_send (cleanup_query qo) = []"
  "filter is_send (map EvFreeQuery qs) = []"
  "filter is_send (error_events pg) = []"
  "filter is_send (destroy_events pg) = []"
  "\<not> is_send (EvClear r)" "\<not> is_send EvStop" "\<not> is_send (EvInit i)"
  "\<not> is_send (EvStart i)" "\<not> is_send (EvFreeQuery q)" "is_send (send_event q)"
  "\<not> is_send EvClose" "\<not> is_send EvCloseCompleted" "\<not> is_send EvFreePg"
  "\<not> is_send EvFreeErrorMessage"
  by (simp_all add: is_send_def callback_events_def cleanup_query_def error_events_def
      destroy_events_def send_event_def split: option.splits)

lemma filter_send_drain [simp]: "filter is_send (drain_events qo rs) = []"
  by (induction rs) simp_all

lemma filter_free_simps [simp]:
  "filter is_free_query (callback_events qo r) = []"
  "filter is_free_query (cleanup_query (Some q)) = [EvFreeQuery q]"
  "filter is_free_query (map EvFreeQuery qs) = map EvFreeQuery qs"
  "\<not> is_free_query (EvClear r)" "\<not> is_free_query EvStop" "is_free_query (EvFreeQuery q)"
  "\<not> is_free_query EvClose" "\<not> is_free_query EvFreePg" "\<not> is_free_query EvFreeErrorMessage"
  "\<not> is_free_query EvFinish"
  by (simp_all add: is_free_query_def callback_events_def cleanup_query_def split: option.splits)

lemma filter_free_drain [simp]: "filter is_free_query (drain_events qo rs) = []"
  by (induction rs) simp_all

lemma stop_crashes_simps [simp]:
  "stop_crashes (uv_stop h) = stop_crashes h"
  "stop_crashes (uv_start h) = stop_crashes h"
  "\<not> stop_crashes (uv_init plat h)"
  by (simp_all add: stop_crashes_def uv_stop_def uv_start_def uv_init_def split: platform.splits)

lemma on_ready_fail:
  assumes "h_data (handle pg)" "\<not> destroying pg" "\<not> stop_crashes (handle pg)" "ready_ok plat e"
    "e_results e = good @ bad # later" "\<forall>r\<in>set good. result_ok r" "\<not> result_ok bad"
  shows "on_ready plat e pg =
     (let X = (if plat = Win32 then pg\<lparr>handle := uv_stop (handle pg)\<rparr> else pg)
                \<lparr>current_query := None\<rparr>
      in (destroyed (after_error (Some (r_error bad)) X),
          (if plat = Win32 then [EvStop] else [])
          @ drain_events (current_query pg) good @ callback_events (current_query pg) bad
          @ EvClear bad # cleanup_query (current_query pg)
          @ error_events X @ destroy_events (after_error (Some (r_error bad)) X)))"
proof (cases plat)
  case Unix
  then show ?thesis using assms
    by (simp add: on_ready_def on_poll_def ready_ok_def drain_fail handle_error_live Let_def)
next
  case Win32
  then show ?thesis using assms
    by (simp add: on_ready_def on_timer_def ready_ok_def drain_fail handle_error_live Let_def)
qed

lemma reactor_after_destroy:
  "destroying pg \<Longrightarrow> list_all is_reactor acts \<Longrightarrow>
   destroying (fst (run plat acts pg)) \<and>
   filter is_send (snd (run plat acts pg)) = [] \<and>
   filter is_callback (snd (run plat acts pg)) = []"
proof (induction acts arbitrary: pg)
  case Nil
  then show ?case by simp
next
  case (Cons a acts)
  have r: "on_ready plat e pg = (pg, [])" for e
    using Cons.prems(1) by (cases plat) (simp_all add: on_ready_def on_poll_def on_timer_def)
  from Cons.prems(2) have ra: "is_reactor a" and racts: "list_all is_reactor acts" by simp_all
  have st: "destroying (fst (step plat a pg)) \<and> filter is_send (snd (step plat a pg)) = []
     \<and> filter is_callback (snd (step plat a pg)) = []"
    using ra Cons.prems(1)
    by (cases a) (simp_all add: is_reactor_def r on_handle_closed_def split_beta)
  from Cons.IH[OF _ racts, of "fst (step plat a pg)"] st show ?case
    by (simp add: split_beta)
qed

lemma filter_clear_simps [simp]:
  "filter is_clear (callback_events qo r) = []"
  "filter is_clear (cleanup_query qo) = []"
  "filter is_clear (map EvFreeQuery qs) = []"
  "filter is_clear (error_events pg) = []"
  "filter is_clear (destroy_events pg) = []"
  "is_clear (EvClear r)" "\<not> is_clear EvStop"
  by (simp_all add: is_clear_def callback_events_def cleanup_query_def error_events_def
      destroy_events_def split: option.splits)

lemma filter_clear_drain [simp]: "filter is_clear (drain_events qo rs) = map EvClear rs"
  by (induction rs) simp_all

lemma filter_free_error [simp]:
  "filter is_free_query (error_events pg) = map EvFreeQuery (query_queue pg)"
  "filter is_free_query (destroy_events pg) = map EvFreeQuery (query_queue pg)"
  by (simp_all add: error_events_def destroy_events_def)

lemma after_error_simps [simp]:
  "query_queue (after_error err pg) = []"
  "current_query (after_error err pg) = current_query pg"
  "\<not> is_executing (after_error err pg)"
  "error_message (after_error err pg) = err"
  "destroying (after_error err pg) = destroying pg"
  "h_type (handle (after_error err pg)) = h_type (handle pg)"
  "uv_is_closing (handle (after_error err pg)) = uv_is_closing (handle pg)"
  by (simp_all add: after_error_def uv_stop_def uv_is_closing_def)

lemma destroyed_simps [simp]:
  "query_queue (destroyed pg) = []"
  "current_query (destroyed pg) = current_query pg"
  "is_executing (destroyed pg) = is_executing pg"
  "error_message (destroyed pg) = error_message pg"
  "destroying (destroyed pg)"
  by (simp_all add: destroyed_def Let_def)

lemma destroy_events_close:
  "\<not> uv_is_closing (handle pg) \<Longrightarrow>
   EvClose \<in> set (destroy_events pg) \<or> EvFreePg \<in> set (destroy_events pg)"
  by (simp add: destroy_events_def)

lemma ready_busy:
  "awaiting pg q \<Longrightarrow> good_env plat e \<Longrightarrow> e_is_busy e \<Longrightarrow> on_ready plat e pg = (pg, [])"
  by (cases plat) (auto simp: on_ready_def on_poll_def on_timer_def awaiting_def good_env_def)

lemma on_ready_drained:
  assumes "h_data (handle pg)" "\<not> destroying pg" "\<not> stop_crashes (handle pg)" "ready_ok plat e"
    "\<forall>r\<in>set (e_results e). result_ok r"
  shows "on_ready plat e pg =
     (fst (execute_next_query plat e (pg\<lparr>handle := uv_stop (handle pg), current_query := None\<rparr>)),
      (case plat of
         Unix \<Rightarrow> drain_events (current_query pg) (e_results e)
                 @ EvStop # cleanup_query (current_query pg)
       | Win32 \<Rightarrow> EvStop # drain_events (current_query pg) (e_results e)
                 @ cleanup_query (current_query pg))
      @ snd (execute_next_query plat e (pg\<lparr>handle := uv_stop (handle pg), current_query := None\<rparr>)))"
proof (cases plat)
  case Unix
  then show ?thesis using assms(1-4)
    by (simp add: on_ready_def on_poll_def drain_all_ok[OF assms(5)] ready_ok_def split_beta
          Let_def)
next
  case Win32
  then show ?thesis using assms(1-4)
    by (simp add: on_ready_def on_timer_def drain_all_ok[OF assms(5)] ready_ok_def split_beta
          Let_def)
qed

lemma good_env_ready: "good_env plat e \<Longrightarrow> \<not> e_is_busy e \<Longrightarrow> ready_ok plat e"
  by (simp add: good_env_def ready_ok_def)

lemma ready_advance:
  assumes "awaiting pg q" "good_env plat e" "\<not> e_is_busy e" "query_queue pg = q2 # rest"
  shows "\<exists>pg'. on_ready plat e pg
            = (pg', op_events plat q (e_results e) @ [send_event q2, EvInit 0, EvStart 0])
          \<and> awaiting pg' q2 \<and> query_queue pg' = rest"
proof -
  let ?X = "pg\<lparr>handle := uv_stop (handle pg), current_query := None\<rparr>"
  from assms(2) have d: "dispatch_ok plat e" and ok: "\<forall>r\<in>set (e_results e). result_ok r"
    by (simp_all add: good_env_def)
  have q: "query_queue ?X = q2 # rest" using assms(4) by simp
  have a: "h_data (handle pg)" "\<not> destroying pg" "current_query pg = Some q"
    and nc: "\<not> stop_crashes (handle pg)"
    using assms(1) by (simp_all add: awaiting_def stop_crashes_def)
  note r = on_ready_drained[OF a(1,2) nc good_env_ready[OF assms(2,3)] ok]
  note x = execute_next_query_success[OF d q]
  have ev: "snd (on_ready plat e pg)
      = op_events plat q (e_results e) @ [send_event q2, EvInit 0, EvStart 0]"
    by (simp add: r x a(3) op_events_def cleanup_query_def split: platform.splits)
  have st: "awaiting (fst (on_ready plat e pg)) q2 \<and> query_queue (fst (on_ready plat e pg)) = rest"
    using assms(1)
    by (simp only: r x fst_conv)
       (simp add: awaiting_def uv_init_def uv_start_def uv_stop_def uv_is_closing_def
          split: platform.splits)
  show ?thesis using ev st by (intro exI[of _ "fst (on_ready plat e pg)"]) (simp add: prod_eq_iff)
qed

lemma ready_finish:
  assumes "awaiting pg q" "good_env plat e" "\<not> e_is_busy e" "query_queue pg = []"
  shows "\<exists>pg'. on_ready plat e pg = (pg', op_events plat q (e_results e) @ [EvClose])
          \<and> destroying pg' \<and> \<not> h_active (handle pg')"
proof -
  let ?X = "pg\<lparr>handle := uv_stop (handle pg), current_query := None\<rparr>"
  from assms(2) have ok: "\<forall>r\<in>set (e_results e). result_ok r"
    by (simp_all add: good_env_def)
  have a: "h_data (handle pg)" "\<not> destroying pg" "current_query pg = Some q"
    and nc: "\<not> stop_crashes (handle pg)"
    using assms(1) by (simp_all add: awaiting_def stop_crashes_def)
  note r = on_ready_drained[OF a(1,2) nc good_env_ready[OF assms(2,3)] ok]
  have x: "execute_next_query plat e ?X = (destroyed (?X\<lparr>is_executing := False\<rparr>), [EvClose])"
    using assms(1,4)
    by (simp add: execute_next_query_def destroy_idle awaiting_def destroy_events_def
          uv_is_closing_def uv_stop_def)
  have ev: "snd (on_ready plat e pg) = op_events plat q (e_results e) @ [EvClose]"
    by (simp add: r x a(3) op_events_def cleanup_query_def split: platform.splits)
  have st: "destroying (fst (on_ready plat e pg)) \<and> \<not> h_active (handle (fst (on_ready plat e pg)))"
    by (simp only: r x fst_conv) (simp add: destroyed_def Let_def uv_close_def uv_stop_def)
  show ?thesis using ev st by (intro exI[of _ "fst (on_ready plat e pg)"]) (simp add: prod_eq_iff)
qed

lemma run_append:
  "\<not> crashed (snd (run plat as pg)) \<Longrightarrow>
   run plat (as @ bs) pg =
     (fst (run plat bs (fst (run plat as pg))),
      snd (run plat as pg) @ snd (run plat bs (fst (run plat as pg))))"
proof (induction as arbitrary: pg)
  case Nil
  show ?case by simp
next
  case (Cons a as)
  from Cons.prems have s: "\<not> crashed (snd (step plat a pg))"
    by (auto simp: split_beta Let_def simp del: step.simps split: if_splits)
  with Cons.prems have r: "\<not> crashed (snd (run plat as (fst (step plat a pg))))"
    by (simp add: split_beta Let_def del: step.simps)
  show ?case using s Cons.IH[OF r] by (simp add: split_beta Let_def del: step.simps)
qed

lemma inactive_run:
  "\<not> h_active (handle pg) \<Longrightarrow> run plat (map Ready envs) pg = (pg, [])"
  by (induction envs) simp_all

lemma harmless_drain [simp]: "harmless (drain_events qo rs)"
  by (induction rs) simp_all

lemma harmless_op_events [simp]: "harmless (op_events plat q rs)"
  by (simp add: op_events_def split: platform.splits)

lemma filter_callback_op_events [simp]:
  "filter is_callback (op_events plat q rs) = op_callbacks q rs"
  by (simp add: op_events_def op_callbacks_def split: platform.splits)

lemma harmless_not_mem: "harmless es \<Longrightarrow> EvClose \<notin> set es \<and> EvFreePg \<notin> set es"
  by (simp add: harmless_def)

lemma not_crashed_drain_events [simp]: "\<not> crashed (drain_events qo rs)"
  by (induction rs) (simp_all add: drain_events_def)

lemma not_crashed_op_events [simp]: "\<not> crashed (op_events plat q rs)"
  by (simp add: op_events_def split: platform.splits)

lemma not_crashed_send_event [simp]: "send_event q \<noteq> EvCrash"
  by (simp add: send_event_def split: option.splits)

lemma awaiting_run:
  assumes "awaiting pg q" "list_all (good_env plat) envs"
  shows "filter is_callback (snd (run plat (map Ready envs) pg))
           = concat (map2 op_callbacks (q # query_queue pg) (drained envs)) \<and>
         (length (drained envs) < length (q # query_queue pg) \<longrightarrow>
            \<not> destroying (fst (run plat (map Ready envs) pg)) \<and>
            harmless (snd (run plat (map Ready envs) pg))) \<and>
         (length (q # query_queue pg) \<le> length (drained envs) \<longrightarrow>
            destroying (fst (run plat (map Ready envs) pg)) \<and>
            (\<exists>body. snd (run plat (map Ready envs) pg) = body @ [EvClose] \<and> harmless body))"
  using assms
proof (induction envs arbitrary: pg q)
  case Nil
  then show ?case by (simp add: drained_def awaiting_def)
next
  case (Cons e envs)
  from Cons.prems have aw: "awaiting pg q" and ge: "good_env plat e"
    and ges: "list_all (good_env plat) envs" by simp_all
  from aw have act: "h_active (handle pg)" by (simp add: awaiting_def)
  show ?case
  proof (cases "e_is_busy e")
    case True
    have d: "drained (e # envs) = drained envs" using True by (simp add: drained_def)
    from Cons.IH[OF aw ges] show ?thesis
      by (simp add: act ready_busy[OF aw ge True] d)
  next
    case False
    have d: "drained (e # envs) = e_results e # drained envs"
      using False by (simp add: drained_def)
    show ?thesis
    proof (cases "query_queue pg")
      case Nil
      from ready_finish[OF aw ge False Nil] obtain pg' where
        r: "on_ready plat e pg = (pg', op_events plat q (e_results e) @ [EvClose])"
        and dd: "destroying pg'" and ia: "\<not> h_active (handle pg')" by blast
      show ?thesis
        by (simp add: act r inactive_run[OF ia] d Nil dd)
    next
      case (Cons q2 rest)
      from ready_advance[OF aw ge False Cons] obtain pg' where
        r: "on_ready plat e pg
              = (pg', op_events plat q (e_results e) @ [send_event q2, EvInit 0, EvStart 0])"
        and aw': "awaiting pg' q2" and q': "query_queue pg' = rest" by blast
      let ?pre = "op_events plat q (e_results e) @ [send_event q2, EvInit 0, EvStart 0]"
      let ?T' = "snd (run plat (map Ready envs) pg')"
      let ?P' = "fst (run plat (map Ready envs) pg')"
      have T: "snd (run plat (map Ready (e # envs)) pg) = ?pre @ ?T'"
        and P: "fst (run plat (map Ready (e # envs)) pg) = ?P'"
        by (simp_all add: act r split_beta)
      have hp: "harmless ?pre" by simp
      from Cons.IH[OF aw' ges] have
        ih1: "filter is_callback ?T' = concat (map2 op_callbacks (q2 # rest) (drained envs))"
        and ih2: "length (drained envs) < length (q2 # rest) \<longrightarrow>
                    \<not> destroying ?P' \<and> harmless ?T'"
        and ih3: "length (q2 # rest) \<le> length (drained envs) \<longrightarrow>
                    destroying ?P' \<and> (\<exists>body. ?T' = body @ [EvClose] \<and> harmless body)"
        by (simp_all add: q')
      have c1: "filter is_callback (?pre @ ?T')
           = concat (map2 op_callbacks (q # query_queue pg) (drained (e # envs)))"
        by (simp add: ih1 d Cons)
      have c2: "length (drained (e # envs)) < length (q # query_queue pg) \<longrightarrow>
            \<not> destroying ?P' \<and> harmless (?pre @ ?T')"
        using ih2 by (simp add: d Cons)
      have c3: "length (q # query_queue pg) \<le> length (drained (e # envs)) \<longrightarrow>
            destroying ?P' \<and> (\<exists>body. ?pre @ ?T' = body @ [EvClose] \<and> harmless body)"
      proof
        assume "length (q # query_queue pg) \<le> length (drained (e # envs))"
        then have "length (q2 # rest) \<le> length (drained envs)" by (simp add: d Cons)
        with ih3 obtain body where dd: "destroying ?P'"
          and b: "?T' = body @ [EvClose]" and hb: "harmless body" by blast
        have "?pre @ ?T' = (?pre @ body) @ [EvClose] \<and> harmless (?pre @ body)"
          using b hb by simp
        then show "destroying ?P' \<and> (\<exists>body. ?pre @ ?T' = body @ [EvClose] \<and> harmless body)"
          using dd by blast
      qed
      show ?thesis unfolding T P using c1 c2 c3 by blast
    qed
  qed
qed

lemma harmless_send_sym [simp]:
  "EvFreePg \<noteq> send_event q" "EvClose \<noteq> send_event q"
  by (simp_all add: send_event_def)

lemma submit_step:
  "accepted s \<Longrightarrow>
   step plat (submit s) pg
     = (pg\<lparr>query_queue := query_queue pg @ [queued s], query_queue_tail := Some (queued s)\<rparr>, [])"
  by (auto simp: submit_def accepted_def queued_def pquv_queue_def Let_def)

lemma queue_run:
  "list_all accepted subs \<Longrightarrow>
   run plat (map submit subs) pg
     = (pg\<lparr>query_queue := query_queue pg @ map queued subs,
           query_queue_tail := (if subs = [] then query_queue_tail pg
                                else Some (queued (last subs)))\<rparr>, [])"
proof (induction subs arbitrary: pg)
  case Nil
  show ?case by simp
next
  case (Cons s subs)
  then show ?case by (simp add: submit_step)
qed

lemma op_callbacks_queued: "op_callbacks (queued s) rs = callbacks_for s rs"
  by (induction rs)
     (simp_all add: op_callbacks_def callbacks_for_def callback_events_def queued_def
        new_query_def split: option.splits)

lemma map2_queued:
  "concat (map2 op_callbacks (map queued subs) rss) = expected_callbacks subs rss"
proof -
  have "map2 op_callbacks (map queued subs) rss = map2 callbacks_for subs rss"
  proof (induction subs arbitrary: rss)
    case Nil
    show ?case by simp
  next
    case (Cons a subs)
    show ?case by (cases rss) (simp_all add: Cons.IH op_callbacks_queued)
  qed
  then show ?thesis by (simp add: expected_callbacks_def)
qed

lemma execute_first:
  assumes "pquv_create mem c st d = Some pg0" "dispatch_ok plat e0"
  shows "\<exists>pg2. step plat (Execute e0)
            (pg0\<lparr>query_queue := query_queue pg0 @ q # rest, query_queue_tail := t\<rparr>)
           = (pg2, [send_event q, EvInit 0, EvStart 0])
         \<and> awaiting pg2 q \<and> query_queue pg2 = rest"
proof -
  let ?pg1 = "pg0\<lparr>query_queue := query_queue pg0 @ q # rest, query_queue_tail := t\<rparr>"
  have c: "is_connected pg0" "\<not> is_executing pg0" "query_queue pg0 = []"
    "h_data (handle pg0)" "\<not> destroying pg0" "\<not> owns_connection pg0"
    "\<not> uv_is_closing (handle pg0)"
    using assms(1)
    by (auto simp: pquv_create_def zeroed_handle_def uv_is_closing_def
        split: option.splits if_splits)
  have q: "query_queue (?pg1\<lparr>is_executing := True\<rparr>) = q # rest" using c by simp
  note x = execute_next_query_success[OF assms(2) q]
  have s: "step plat (Execute e0) ?pg1
       = (fst (execute_next_query plat e0 (?pg1\<lparr>is_executing := True\<rparr>)),
          snd (execute_next_query plat e0 (?pg1\<lparr>is_executing := True\<rparr>)))"
    using c by (simp add: pquv_execute_def split_beta)
  have aw: "awaiting (fst (execute_next_query plat e0 (?pg1\<lparr>is_executing := True\<rparr>))) q
     \<and> query_queue (fst (execute_next_query plat e0 (?pg1\<lparr>is_executing := True\<rparr>))) = rest"
    by (simp only: x fst_conv)
       (insert c, simp add: awaiting_def uv_init_def uv_start_def uv_is_closing_def
          split: platform.splits)
  show ?thesis using s aw x by simp
qed

lemma stop_not_in [simp]:
  "EvStop \<notin> set (drain_events qo rs)" "EvStop \<notin> set (callback_events qo r)"
  "EvStop \<notin> set (cleanup_query qo)"
  by (induction rs)
     (auto simp: callback_events_def cleanup_query_def split: option.splits)

lemma before_stop_simps [simp]:
  "before_stop (EvStop # es) = []"
  "EvStop \<notin> set A \<Longrightarrow> before_stop (A @ EvStop # es) = A"
proof -
  show "before_stop (EvStop # es) = []" by (simp add: before_stop_def)
  assume "EvStop \<notin> set A"
  then have "\<And>x. x \<in> set A \<Longrightarrow> x \<noteq> EvStop" by auto
  from takeWhile_append2[of A "\<lambda>ev. ev \<noteq> EvStop", OF this]
  show "before_stop (A @ EvStop # es) = A" by (simp add: before_stop_def)
qed

lemma before_stop_Nil [simp]: "before_stop [] = []"
  by (simp add: before_stop_def)

lemma timer_disarms_first: "disarmed_before_loop (snd (on_timer e pg))"
  by (simp add: on_timer_def disarmed_before_loop_def split_beta Let_def)

lemma tail_ok_reset [simp]:
  "tail_ok (destroyed pg)" "tail_ok (after_error err pg)"
  by (simp_all add: tail_ok_def destroyed_def after_error_def Let_def)

lemma handle_error_tail: "tail_ok pg \<Longrightarrow> tail_ok (fst (handle_error e err pg))"
proof (cases "is_executing pg \<and> stop_crashes (handle pg)")
  case True
  assume "tail_ok pg"
  then show ?thesis using True by (simp add: handle_error_crash)
next
  case False
  then show ?thesis
    by (cases "destroying pg") (simp_all add: handle_error_live handle_error_dead)
qed

lemma destroy_tail:
  "\<not> is_executing pg \<Longrightarrow> tail_ok pg \<Longrightarrow> tail_ok (fst (pg_async_destroy e pg))"
  by (cases "destroying pg") (simp_all add: destroy_again destroy_idle)

lemma tail_ok_handle [simp]:
  "tail_ok (pg\<lparr>handle := h\<rparr>) = tail_ok pg"
  "tail_ok (pg\<lparr>is_executing := b\<rparr>) = tail_ok pg"
  "tail_ok (pg\<lparr>current_query := c\<rparr>) = tail_ok pg"
  by (simp_all add: tail_ok_def)

lemma arm_handle_tail: "tail_ok pg \<Longrightarrow> tail_ok (fst (arm_handle plat e pg))"
  by (cases plat) (simp_all add: arm_handle_def Let_def split_beta handle_error_tail)

lemma execute_next_query_tail:
  "tail_ok pg \<Longrightarrow> tail_ok (fst (execute_next_query plat e pg))"
proof (cases "query_queue pg")
  case Nil
  assume "tail_ok pg"
  then show ?thesis using Nil destroy_tail[of "pg\<lparr>is_executing := False\<rparr>" e]
    by (simp add: execute_next_query_def)
next
  case (Cons q rest)
  assume t: "tail_ok pg"
  let ?pg1 = "pg\<lparr>current_query := Some q, query_queue := rest,
                  query_queue_tail := (if rest = [] then None else query_queue_tail pg)\<rparr>"
  have t1: "tail_ok ?pg1" using t Cons by (simp add: tail_ok_def)
  from arm_handle_tail[OF t1] handle_error_tail[OF t1] show ?thesis using Cons
    by (simp add: execute_next_query_def Let_def split_beta)
qed

lemma drain_tail: "tail_ok pg \<Longrightarrow> tail_ok (fst (snd (drain e rs pg)))"
  by (induction rs) (simp_all add: split_beta handle_error_tail)

lemma on_ready_tail: "tail_ok pg \<Longrightarrow> tail_ok (fst (on_ready plat e pg))"
proof (cases plat)
  case Unix
  assume t: "tail_ok pg"
  show ?thesis
  proof (cases "fst (drain e (e_results e) pg)")
    case True
    with drain_fin[OF True] t Unix show ?thesis
      by (simp add: on_ready_def on_poll_def Let_def split_beta handle_error_tail
            execute_next_query_tail)
  next
    case False
    with drain_tail[OF t, of e "e_results e"] t Unix show ?thesis
      by (simp add: on_ready_def on_poll_def Let_def split_beta handle_error_tail)
  qed
next
  case Win32
  assume t: "tail_ok pg"
  let ?pg1 = "pg\<lparr>handle := uv_stop (handle pg)\<rparr>"
  have t1: "tail_ok ?pg1" using t by simp
  show ?thesis
  proof (cases "fst (drain e (e_results e) ?pg1)")
    case True
    with drain_fin[OF True] t Win32 show ?thesis
      by (simp add: on_ready_def on_timer_def Let_def split_beta handle_error_tail
            execute_next_query_tail)
  next
    case False
    with drain_tail[OF t1, of e "e_results e"] t Win32 show ?thesis
      by (simp add: on_ready_def on_timer_def Let_def split_beta handle_error_tail)
  qed
qed

lemma step_tail: "tail_ok pg \<Longrightarrow> tail_ok (fst (step plat a pg))"
proof (cases a)
  case (Queue mem s n ps cb d)
  assume "tail_ok pg"
  then show ?thesis using Queue
    by (simp add: pquv_queue_def Let_def tail_ok_def split: option.splits)
next
  case (Execute e)
  assume t: "tail_ok pg"
  then show ?thesis using Execute execute_next_query_tail[of "pg\<lparr>is_executing := True\<rparr>" plat e]
    by (simp add: pquv_execute_def split_beta destroy_tail)
next
  case (Ready e)
  assume "tail_ok pg"
  then show ?thesis using Ready by (simp add: on_ready_tail)
next
  case CloseDone
  assume "tail_ok pg"
  then show ?thesis using CloseDone by (simp add: on_handle_closed_def split_beta)
qed

lemma tail_is_last:
  "pquv_create mem c st d = Some pg0 \<Longrightarrow> tail_ok (fst (run plat acts pg0))"
proof -
  have r: "tail_ok pg \<Longrightarrow> tail_ok (fst (run plat acts pg))" for pg
    by (induction acts arbitrary: pg) (simp_all add: split_beta step_tail del: step.simps)
  assume "pquv_create mem c st d = Some pg0"
  then have "tail_ok pg0"
    by (auto simp: pquv_create_def tail_ok_def split: option.splits if_splits)
  then show ?thesis by (rule r)
qed

lemma cancel_frees_queue_only:
  "\<not> (is_executing pg \<and> stop_crashes (handle pg)) \<Longrightarrow>
   filter is_free_query (snd (pg_async_cancel e pg)) = map EvFreeQuery (query_queue pg) \<and>
   query_queue (fst (pg_async_cancel e pg)) = [] \<and>
   query_queue_tail (fst (pg_async_cancel e pg)) = None \<and>
   current_query (fst (pg_async_cancel e pg)) = current_query pg"
  by (cases "is_executing pg") (simp_all add: cancel_idle cancel_busy is_free_query_def)

lemma send_failure_frees_rest_only:
  assumes "\<not> e_send_result e" "query_queue pg = q # rest"
    and "\<not> (is_executing pg \<and> stop_crashes (handle pg))"
  shows "filter is_free_query (snd (execute_next_query plat e pg)) = map EvFreeQuery rest \<and>
         current_query (fst (execute_next_query plat e pg)) = Some q"
proof -
  let ?pg1 = "pg\<lparr>current_query := Some q, query_queue := rest,
                  query_queue_tail := (if rest = [] then None else query_queue_tail pg)\<rparr>"
  have f: "filter is_free_query (snd (handle_error e err ?pg1)) = map EvFreeQuery rest" for err
    using assms(3)
    by (cases "destroying pg") (simp_all add: handle_error_live handle_error_dead)
  show ?thesis using assms(1,2) f
    by (simp add: execute_next_query_def Let_def split_beta is_free_query_def send_event_def)
qed

section \<open>The claims\<close>

subsection \<open>C6: the destroying flag\<close>

text \<open>
  C6. Once \<open>destroying\<close> is set it stays set through every later entry into the
  library (calls of the user, callbacks of the loop, close completion). While it is set,
  the readiness callback \<^verbatim>\<open>on_poll\<close> and the timer callback \<^verbatim>\<open>on_timer\<close> return the
  context unchanged and make no call at all, so no user callback either, and
  \<^verbatim>\<open>pg_async_destroy\<close> returns at once without repeating any step.
\<close>

theorem destroying_is_final:
  "destroying pg \<Longrightarrow>
   destroying (fst (run plat acts pg)) \<and>
   on_poll e pg = (pg, []) \<and> on_timer e pg = (pg, []) \<and>
   pg_async_destroy e pg = (pg, [])"
  using run_run_ok[of pg plat acts]
  by (simp add: run_ok_def on_poll_def on_timer_def pg_async_destroy_def)

theorem destroying_is_final_witness:
  "destroying (fresh\<lparr>destroying := True\<rparr>) \<and>
   destroying (fst (run Unix [Queue ok_mem (Some ''SELECT 1'') 0 None (Some 1) 0,
                              Execute (ok_env []), Ready (ok_env []), CloseDone]
                     (fresh\<lparr>destroying := True\<rparr>))) \<and>
   on_poll (ok_env [res 1 PGRES_TUPLES_OK]) (fresh\<lparr>destroying := True\<rparr>)
     = (fresh\<lparr>destroying := True\<rparr>, []) \<and>
   on_timer (ok_env [res 1 PGRES_TUPLES_OK]) (fresh\<lparr>destroying := True\<rparr>)
     = (fresh\<lparr>destroying := True\<rparr>, []) \<and>
   pg_async_destroy (ok_env []) (fresh\<lparr>destroying := True\<rparr>)
     = (fresh\<lparr>destroying := True\<rparr>, [])"
proof -
  have h: "destroying (fresh\<lparr>destroying := True\<rparr>)" by simp
  show ?thesis
    using h destroying_is_final[OF h] by blast
qed

subsection \<open>C10: the caller's connection\<close>

text \<open>
  C10. A context that \<^verbatim>\<open>pquv_create\<close> returns does not own its connection, and
  whatever is done with it afterwards (any sequence of \<^verbatim>\<open>pquv_queue\<close>,
  \<^verbatim>\<open>pquv_execute\<close>, callbacks of the loop and close completions, with any answers of
  the driver and the loop), \<^verbatim>\<open>PQfinish\<close> is never called, the context still holds the
  connection it was given and still does not own it.
\<close>

theorem connection_never_finished:
  "pquv_create mem c st d = Some pg \<Longrightarrow>
   \<not> owns_connection pg \<and>
   EvFinish \<notin> set (snd (run plat acts pg)) \<and>
   conn (fst (run plat acts pg)) = c \<and>
   \<not> owns_connection (fst (run plat acts pg))"
  using run_run_ok[of pg plat acts] created_inv[of mem c st d pg]
  by (simp add: run_ok_def)

theorem connection_never_finished_witness:
  "pquv_create ok_mem (Some 1) CONNECTION_OK 0 = Some fresh \<and>
   \<not> owns_connection fresh \<and>
   EvFinish \<notin> set (snd (run Unix [Queue ok_mem (Some ''SELECT 1'') 0 None (Some 1) 0,
                                  Execute (ok_env []),
                                  Ready (ok_env [res 1 PGRES_FATAL_ERROR]), CloseDone] fresh)) \<and>
   conn (fst (run Unix [Queue ok_mem (Some ''SELECT 1'') 0 None (Some 1) 0,
                        Execute (ok_env []),
                        Ready (ok_env [res 1 PGRES_FATAL_ERROR]), CloseDone] fresh)) = Some 1 \<and>
   \<not> owns_connection (fst (run Unix [Queue ok_mem (Some ''SELECT 1'') 0 None (Some 1) 0,
                        Execute (ok_env []),
                        Ready (ok_env [res 1 PGRES_FATAL_ERROR]), CloseDone] fresh))"
proof -
  have h: "pquv_create ok_mem (Some 1) CONNECTION_OK 0 = Some fresh"
    by (simp add: pquv_create_def ok_mem_def fresh_def zeroed_handle_def)
  show ?thesis
    using h connection_never_finished[OF h] by blast
qed

subsection \<open>C7: pquv_execute\<close>

text \<open>
  C7. \<^verbatim>\<open>pquv_execute\<close> on a context that is not connected or is already executing
  returns \<open>-1\<close>, leaves the context as it is and makes no call. On a connected, idle
  context with an empty queue it returns \<open>0\<close> and does what \<^verbatim>\<open>pg_async_destroy\<close>
  does: the context is destroying afterwards, and no user callback is invoked and nothing
  is sent. Otherwise the head of the queue becomes the current query and is the first
  thing sent to the driver, whatever the driver answers; the call returns \<open>0\<close> unless
  the process dies in it (the result \<open>None\<close>: a failed dispatch stops a handle that
  was never initialised), and when the driver and the loop accept the dispatch
  it returns \<open>0\<close>, the context is executing, the rest of the queue is left, and the
  handle is initialised and armed.
\<close>

theorem pquv_execute_cases:
  "(\<not> is_connected pg \<or> is_executing pg \<longrightarrow>
      pquv_execute plat e (Some pg) = (Some (- 1), Some pg, [])) \<and>
   (is_connected pg \<and> \<not> is_executing pg \<and> query_queue pg = [] \<longrightarrow>
      pquv_execute plat e (Some pg)
        = (Some 0, Some (fst (pg_async_destroy e pg)), snd (pg_async_destroy e pg)) \<and>
      destroying (fst (pg_async_destroy e pg)) \<and>
      filter is_callback (snd (pg_async_destroy e pg)) = [] \<and>
      filter is_send (snd (pg_async_destroy e pg)) = []) \<and>
   (is_connected pg \<and> \<not> is_executing pg \<and> query_queue pg = q # rest \<longrightarrow>
      (\<exists>ret pg' es. pquv_execute plat e (Some pg) = (ret, Some pg', send_event q # es) \<and>
                current_query pg' = Some q \<and>
                (if crashed es then ret = None else ret = Some 0) \<and>
                (dispatch_ok plat e \<longrightarrow>
                   ret = Some 0 \<and> is_executing pg' \<and> query_queue pg' = rest \<and>
                   h_active (handle pg') \<and> es = [EvInit 0, EvStart 0])))"
proof (intro conjI impI)
  assume "\<not> is_connected pg \<or> is_executing pg"
  then show "pquv_execute plat e (Some pg) = (Some (- 1), Some pg, [])"
    by (auto simp: pquv_execute_def)
next
  assume a: "is_connected pg \<and> \<not> is_executing pg \<and> query_queue pg = []"
  then show "pquv_execute plat e (Some pg)
        = (Some 0, Some (fst (pg_async_destroy e pg)), snd (pg_async_destroy e pg))"
    by (simp add: pquv_execute_def split_beta destroy_not_crashed)
  show "destroying (fst (pg_async_destroy e pg))"
    using a by (cases "destroying pg") (simp_all add: destroy_again destroy_idle destroyed_def Let_def)
  show "filter is_callback (snd (pg_async_destroy e pg)) = []"
    using a by (cases "destroying pg")
      (simp_all add: destroy_again destroy_idle destroy_events_def is_callback_def)
  show "filter is_send (snd (pg_async_destroy e pg)) = []"
    using a by (cases "destroying pg")
      (simp_all add: destroy_again destroy_idle destroy_events_def is_send_def)
next
  assume a: "is_connected pg \<and> \<not> is_executing pg \<and> query_queue pg = q # rest"
  let ?pg1 = "pg\<lparr>is_executing := True\<rparr>"
  let ?r = "execute_next_query plat e ?pg1"
  have q: "query_queue ?pg1 = q # rest" using a by simp
  obtain es where es: "snd ?r = send_event q # es"
    and cur: "current_query (fst ?r) = Some q"
    using execute_next_query_head[OF q, of plat e] by blast
  have ok: "is_executing (fst ?r) \<and> query_queue (fst ?r) = rest \<and>
            h_active (handle (fst ?r)) \<and> es = [EvInit 0, EvStart 0]" if "dispatch_ok plat e"
    using es execute_next_query_success[OF that q] by (simp add: uv_start_def)
  have ex: "pquv_execute plat e (Some pg)
      = (if crashed es then None else Some 0, Some (fst ?r), send_event q # es)"
    using a es by (simp add: pquv_execute_def split_beta)
  show "\<exists>ret pg' es. pquv_execute plat e (Some pg) = (ret, Some pg', send_event q # es) \<and>
                current_query pg' = Some q \<and>
                (if crashed es then ret = None else ret = Some 0) \<and>
                (dispatch_ok plat e \<longrightarrow>
                   ret = Some 0 \<and> is_executing pg' \<and> query_queue pg' = rest \<and>
                   h_active (handle pg') \<and> es = [EvInit 0, EvStart 0])"
    using cur ok
    by (intro exI[of _ "if crashed es then None else Some 0"] exI[of _ "fst ?r"] exI[of _ es])
       (auto simp: ex)
qed

theorem pquv_execute_cases_witness:
  "is_executing (fresh\<lparr>is_executing := True\<rparr>) \<and>
   pquv_execute Unix (ok_env []) (Some (fresh\<lparr>is_executing := True\<rparr>))
     = (Some (- 1), Some (fresh\<lparr>is_executing := True\<rparr>), []) \<and>
   is_connected fresh \<and> \<not> is_executing fresh \<and> query_queue fresh = [] \<and>
   pquv_execute Unix (ok_env []) (Some fresh)
     = (Some 0, Some (fresh\<lparr>destroying := True\<rparr>), [EvFreePg]) \<and>
   query_queue (fresh\<lparr>query_queue := [new_query ok_mem ''SELECT 1'' 0 None (Some 7) 0]\<rparr>)
     = [new_query ok_mem ''SELECT 1'' 0 None (Some 7) 0] \<and>
   dispatch_ok Unix (ok_env []) \<and>
   fst (pquv_execute Unix (ok_env [])
         (Some (fresh\<lparr>query_queue := [new_query ok_mem ''SELECT 1'' 0 None (Some 7) 0]\<rparr>)))
     = Some 0 \<and>
   snd (snd (pquv_execute Unix (ok_env [])
         (Some (fresh\<lparr>query_queue := [new_query ok_mem ''SELECT 1'' 0 None (Some 7) 0]\<rparr>))))
     = [EvSendQuery ''SELECT 1'', EvInit 0, EvStart 0]"
proof -
  let ?q = "new_query ok_mem ''SELECT 1'' 0 None (Some 7) 0"
  let ?pg = "fresh\<lparr>query_queue := [?q]\<rparr>"
  have d: "dispatch_ok Unix (ok_env [])" by (simp add: dispatch_ok_def ok_env_def)
  have f: "is_connected fresh \<and> \<not> is_executing fresh \<and> query_queue fresh = []"
    by (simp add: fresh_def)
  have g: "is_connected ?pg \<and> \<not> is_executing ?pg \<and> query_queue ?pg = ?q # []"
    by (simp add: fresh_def)
  have dd: "pg_async_destroy (ok_env []) fresh = (fresh\<lparr>destroying := True\<rparr>, [EvFreePg])"
    by (simp add: pg_async_destroy_def pg_async_cancel_def fresh_def Let_def)
  have s: "send_event ?q = EvSendQuery ''SELECT 1''" by (simp add: send_event_def new_query_def)
  from pquv_execute_cases[of "fresh\<lparr>is_executing := True\<rparr>" Unix "ok_env []"]
  have 1: "pquv_execute Unix (ok_env []) (Some (fresh\<lparr>is_executing := True\<rparr>))
     = (Some (- 1), Some (fresh\<lparr>is_executing := True\<rparr>), [])" by simp
  from pquv_execute_cases[of fresh Unix "ok_env []"] f
  have 2: "pquv_execute Unix (ok_env []) (Some fresh)
     = (Some 0, Some (fresh\<lparr>destroying := True\<rparr>), [EvFreePg])" by (simp add: dd)
  from pquv_execute_cases[of ?pg Unix "ok_env []" ?q "[]"] g d
  have 3: "fst (pquv_execute Unix (ok_env []) (Some ?pg)) = Some 0 \<and>
       snd (snd (pquv_execute Unix (ok_env []) (Some ?pg))) = [EvSendQuery ''SELECT 1'', EvInit 0, EvStart 0]"
    by (auto simp: s)
  show ?thesis using 1 2 3 d f g by simp
qed

subsection \<open>C8: parameters reach the driver as submitted\<close>

text \<open>
  C8. The claim says that an operation queued with \<open>K\<close> parameters hands the driver
  exactly the \<open>K\<close> values submitted, a \<^verbatim>\<open>NULL\<close> parameter as \<^verbatim>\<open>NULL\<close>.
  \<^verbatim>\<open>pquv_queue\<close> copies each parameter with \<^verbatim>\<open>strdup\<close> and does not look at the
  result: when the copy of the first of two parameters fails, the call still returns
  \<open>0\<close>, and at dispatch the driver is sent \<^verbatim>\<open>NULL\<close> in place of the value submitted.
  (When every copy succeeds the parameters reach the driver as submitted, see
  \<open>params_reach_driver\<close>.)
\<close>

theorem failed_param_copy_sends_null:
  "fst (pquv_queue (ok_mem\<lparr>a_strdup_param := (\<lambda>i. i \<noteq> 0)\<rparr>) (Some fresh) (Some ''INSERT'') 2
          (Some (\<lambda>i. if i = 0 then Some ''p'' else Some ''q'')) None 0) = 0 \<and>
   snd (run Unix [Queue (ok_mem\<lparr>a_strdup_param := (\<lambda>i. i \<noteq> 0)\<rparr>) (Some ''INSERT'') 2
                    (Some (\<lambda>i. if i = 0 then Some ''p'' else Some ''q'')) None 0,
                  Execute (ok_env [])] fresh)
     = [EvSendQueryParams ''INSERT'' 2 (Some [None, Some ''q'']), EvInit 0, EvStart 0]"
  by (simp add: eval_defs upt_rec)

subsection \<open>C2: the handle is initialised again at every dispatch\<close>

text \<open>
  C2. The claim says the handle is initialised once per context and only armed again
  afterwards. The source calls \<^verbatim>\<open>uv_poll_init\<close> (\<^verbatim>\<open>uv_timer_init\<close>) in every
  \<^verbatim>\<open>execute_next_query\<close>: with two queued operations and a driver that answers every
  call with success, the trace holds the initialisation twice, the second time on a
  handle that is initialised already.
\<close>

theorem second_dispatch_reinitializes:
  "snd (run Unix [Queue ok_mem (Some ''SELECT 1'') 0 None (Some 7) 0,
                  Queue ok_mem (Some ''SELECT 2'') 0 None (Some 8) 0,
                  Execute (ok_env []),
                  Ready (ok_env [res 1 PGRES_TUPLES_OK])] fresh)
   = [EvSendQuery ''SELECT 1'', EvInit 0, EvStart 0,
      EvResultCb 7 (res 1 PGRES_TUPLES_OK) 0, EvClear (res 1 PGRES_TUPLES_OK), EvStop,
      EvFreeQuery (new_query ok_mem ''SELECT 1'' 0 None (Some 7) 0),
      EvSendQuery ''SELECT 2'', EvInit 0, EvStart 0]"
  by (simp add: eval_defs)

subsection \<open>C5: the current query on the error paths\<close>

text \<open>
  C5. The claim says the query popped by the dispatcher is freed exactly once on every
  error path. With three operations queued, let the first complete and the send of the
  second fail: \<^verbatim>\<open>execute_next_query\<close>, called from the readiness callback, enters
  \<^verbatim>\<open>handle_error\<close>, which frees the third query (still queued), requests the close,
  and on its completion the error text and the context are freed; the second query is
  in \<^verbatim>\<open>current_query\<close> and nothing frees it. (What the claim says of
  \<^verbatim>\<open>pg_async_cancel\<close> itself holds, see \<open>cancel_frees_queue_only\<close>; that a failed send
  frees the rest of the queue and not the popped query holds wherever the call returns,
  see \<open>send_failure_frees_rest_only\<close>.)
\<close>

theorem send_failure_leaks_current:
  "snd (run Unix [Queue ok_mem (Some ''SELECT 1'') 0 None (Some 7) 0,
                  Queue ok_mem (Some ''SELECT 2'') 0 None (Some 8) 0,
                  Queue ok_mem (Some ''SELECT 3'') 0 None (Some 9) 0,
                  Execute (ok_env []),
                  Ready ((ok_env [res 1 PGRES_TUPLES_OK])\<lparr>e_send_result := False\<rparr>),
                  CloseDone] fresh)
   = [EvSendQuery ''SELECT 1'', EvInit 0, EvStart 0,
      EvResultCb 7 (res 1 PGRES_TUPLES_OK) 0, EvClear (res 1 PGRES_TUPLES_OK), EvStop,
      EvFreeQuery (new_query ok_mem ''SELECT 1'' 0 None (Some 7) 0),
      EvSendQuery ''SELECT 2'', EvStop,
      EvFreeQuery (new_query ok_mem ''SELECT 3'' 0 None (Some 9) 0),
      EvClose, EvCloseCompleted, EvFreeErrorMessage, EvFreePg]"
  by (simp add: eval_defs)

subsection \<open>C4: a failed result ends the batch\<close>

text \<open>
  C4. Let the readiness or timer callback reach the loop over the results while the
  query \<open>q\<close> is current, on a handle that has been initialised (the loop invokes the
  callback of no other), and let the driver return the results \<open>good\<close>, all with
  status \<^verbatim>\<open>PGRES_TUPLES_OK\<close> or \<^verbatim>\<open>PGRES_COMMAND_OK\<close>, then \<open>bad\<close> with another
  status, then \<open>later\<close>. Then the callback of \<open>q\<close> is invoked for \<open>good\<close> and for
  \<open>bad\<close> and for nothing else, exactly these results are cleared (the loop does not
  reach \<open>later\<close>), nothing is sent to the driver, \<open>q\<close> is freed and then every query
  still queued, the error text of \<open>bad\<close> is stored, the context is destroying with its
  handle closed or itself freed, the queue is empty and there is no current query; and
  whatever the loop does afterwards (readiness callbacks, close completion), nothing is
  sent and no callback is invoked.
\<close>

theorem failed_result_aborts_batch:
  assumes "h_data (handle pg)" "\<not> destroying pg" "\<not> uv_is_closing (handle pg)"
    and "ready_ok plat e"
    and "h_type (handle pg) \<noteq> UV_UNKNOWN_HANDLE"
    and "current_query pg = Some q"
    and "e_results e = good @ bad # later"
    and "\<forall>r\<in>set good. result_ok r" "\<not> result_ok bad"
    and "list_all is_reactor acts"
  shows "filter is_callback (snd (on_ready plat e pg))
           = concat (map (callback_events (Some q)) (good @ [bad])) \<and>
         filter is_clear (snd (on_ready plat e pg)) = map EvClear (good @ [bad]) \<and>
         filter is_send (snd (on_ready plat e pg)) = [] \<and>
         filter is_free_query (snd (on_ready plat e pg))
           = EvFreeQuery q # map EvFreeQuery (query_queue pg) \<and>
         error_message (fst (on_ready plat e pg)) = Some (r_error bad) \<and>
         destroying (fst (on_ready plat e pg)) \<and>
         (EvClose \<in> set (snd (on_ready plat e pg)) \<or> EvFreePg \<in> set (snd (on_ready plat e pg))) \<and>
         query_queue (fst (on_ready plat e pg)) = [] \<and>
         current_query (fst (on_ready plat e pg)) = None \<and>
         \<not> is_executing (fst (on_ready plat e pg)) \<and>
         filter is_send (snd (run plat acts (fst (on_ready plat e pg)))) = [] \<and>
         filter is_callback (snd (run plat acts (fst (on_ready plat e pg)))) = []"
proof -
  let ?X = "(if plat = Win32 then pg\<lparr>handle := uv_stop (handle pg)\<rparr> else pg)
                \<lparr>current_query := None\<rparr>"
  have ns: "\<not> stop_crashes (handle pg)" using assms(5) by (simp add: stop_crashes_def)
  note r = on_ready_fail[OF assms(1,2) ns assms(4,7,8,9)]
  have nc: "\<not> uv_is_closing (handle (after_error (Some (r_error bad)) ?X))"
  proof -
    have "uv_is_closing (handle ?X) = uv_is_closing (handle pg)"
      by (simp add: uv_is_closing_def uv_stop_def)
    then show ?thesis using assms(3) by (simp only: after_error_simps) simp
  qed
  have d: "destroying (fst (on_ready plat e pg))" by (simp add: r Let_def)
  have qx: "query_queue ?X = query_queue pg" by simp
  have cl: "EvClose \<in> set (snd (on_ready plat e pg)) \<or> EvFreePg \<in> set (snd (on_ready plat e pg))"
    using destroy_events_close[OF nc] by (auto simp: r Let_def)
  have 1: "filter is_callback (snd (on_ready plat e pg))
           = concat (map (callback_events (Some q)) (good @ [bad]))"
    by (simp add: r Let_def assms(6))
  have 2: "filter is_clear (snd (on_ready plat e pg)) = map EvClear (good @ [bad])"
    by (simp add: r Let_def assms(6))
  have 3: "filter is_send (snd (on_ready plat e pg)) = []"
    by (simp add: r Let_def assms(6))
  have 4: "filter is_free_query (snd (on_ready plat e pg))
           = EvFreeQuery q # map EvFreeQuery (query_queue pg)"
    by (simp add: r Let_def assms(6))
  have 5: "error_message (fst (on_ready plat e pg)) = Some (r_error bad) \<and>
         query_queue (fst (on_ready plat e pg)) = [] \<and>
         current_query (fst (on_ready plat e pg)) = None \<and>
         \<not> is_executing (fst (on_ready plat e pg))"
    by (simp add: r Let_def)
  from reactor_after_destroy[OF d assms(10), of plat] 1 2 3 4 5 d cl show ?thesis
    by blast
qed

theorem failed_result_aborts_batch_witness:
  "filter is_callback (snd (on_ready Unix
       (ok_env [res 1 PGRES_TUPLES_OK, res 2 PGRES_FATAL_ERROR, res 3 PGRES_TUPLES_OK]) waiting))
     = [EvResultCb 7 (res 1 PGRES_TUPLES_OK) 0, EvResultCb 7 (res 2 PGRES_FATAL_ERROR) 0] \<and>
   filter is_clear (snd (on_ready Unix
       (ok_env [res 1 PGRES_TUPLES_OK, res 2 PGRES_FATAL_ERROR, res 3 PGRES_TUPLES_OK]) waiting))
     = [EvClear (res 1 PGRES_TUPLES_OK), EvClear (res 2 PGRES_FATAL_ERROR)] \<and>
   filter is_send (snd (on_ready Unix
       (ok_env [res 1 PGRES_TUPLES_OK, res 2 PGRES_FATAL_ERROR, res 3 PGRES_TUPLES_OK]) waiting))
     = [] \<and>
   filter is_free_query (snd (on_ready Unix
       (ok_env [res 1 PGRES_TUPLES_OK, res 2 PGRES_FATAL_ERROR, res 3 PGRES_TUPLES_OK]) waiting))
     = [EvFreeQuery query_a, EvFreeQuery query_b] \<and>
   destroying (fst (on_ready Unix
       (ok_env [res 1 PGRES_TUPLES_OK, res 2 PGRES_FATAL_ERROR, res 3 PGRES_TUPLES_OK]) waiting)) \<and>
   filter is_send (snd (run Unix [Ready (ok_env [res 4 PGRES_TUPLES_OK]), CloseDone]
     (fst (on_ready Unix
       (ok_env [res 1 PGRES_TUPLES_OK, res 2 PGRES_FATAL_ERROR, res 3 PGRES_TUPLES_OK]) waiting))))
     = [] \<and>
   filter is_callback (snd (run Unix [Ready (ok_env [res 4 PGRES_TUPLES_OK]), CloseDone]
     (fst (on_ready Unix
       (ok_env [res 1 PGRES_TUPLES_OK, res 2 PGRES_FATAL_ERROR, res 3 PGRES_TUPLES_OK]) waiting))))
     = []"
proof -
  let ?e = "ok_env [res 1 PGRES_TUPLES_OK, res 2 PGRES_FATAL_ERROR, res 3 PGRES_TUPLES_OK]"
  have h: "h_data (handle waiting)" "\<not> destroying waiting" "\<not> uv_is_closing (handle waiting)"
    "ready_ok Unix ?e" "h_type (handle waiting) \<noteq> UV_UNKNOWN_HANDLE"
    "current_query waiting = Some query_a"
    "e_results ?e = [res 1 PGRES_TUPLES_OK] @ res 2 PGRES_FATAL_ERROR # [res 3 PGRES_TUPLES_OK]"
    "\<forall>r\<in>set [res 1 PGRES_TUPLES_OK]. result_ok r" "\<not> result_ok (res 2 PGRES_FATAL_ERROR)"
    "list_all is_reactor [Ready (ok_env [res 4 PGRES_TUPLES_OK]), CloseDone]"
    by (simp_all add: waiting_def uv_is_closing_def ready_ok_def ok_env_def result_ok_def
        res_def is_reactor_def)
  have q: "query_queue waiting = [query_b]" by (simp add: waiting_def)
  from failed_result_aborts_batch[OF h] show ?thesis
    by (simp add: callback_events_def query_a_def q)
qed

subsection \<open>C1: callbacks in submission order\<close>

text \<open>
  C1. Create a context, submit the operations \<open>subs\<close> (at least one) with
  \<^verbatim>\<open>pquv_queue\<close>, call \<^verbatim>\<open>pquv_execute\<close> and let the loop invoke the readiness (or
  timer) callback any number of times, every answer of the driver and the loop being a
  success. Then the user callbacks invoked are exactly \<open>expected_callbacks\<close>: for the
  first submission one callback per result of the first response in which the driver was
  not busy, then the same for the second, and so on. As long as fewer responses than
  submissions have been drained, the context is not destroying and nothing is closed or
  freed; once the last submission's results are drained, the context is destroying, and
  the request to close the handle is the last call, after all callbacks.
\<close>

theorem fifo_callbacks:
  assumes "pquv_create mem c st d = Some pg0"
    and "subs \<noteq> []" "list_all accepted subs"
    and "dispatch_ok plat e0" "list_all (good_env plat) envs"
    and "run plat (map submit subs @ Execute e0 # map Ready envs) pg0 = (pg, T)"
  shows "filter is_callback T = expected_callbacks subs (drained envs) \<and>
         (length (drained envs) < length subs \<longrightarrow>
            \<not> destroying pg \<and> EvClose \<notin> set T \<and> EvFreePg \<notin> set T) \<and>
         (length subs \<le> length (drained envs) \<longrightarrow>
            destroying pg \<and>
            (\<exists>body. T = body @ [EvClose] \<and> EvClose \<notin> set body \<and> EvFreePg \<notin> set body \<and>
                    filter is_callback body = expected_callbacks subs (drained envs)))"
proof -
  obtain s rest where subs: "subs = s # rest" using assms(2) by (cases subs) auto
  let ?pg1 = "pg0\<lparr>query_queue := query_queue pg0 @ queued s # map queued rest,
                  query_queue_tail := Some (queued (last subs))\<rparr>"
  have r1: "run plat (map submit subs) pg0 = (?pg1, [])"
    using queue_run[OF assms(3), of plat pg0] by (simp add: subs)
  from execute_first[OF assms(1,4), where q = "queued s" and rest = "map queued rest"
      and t = "Some (queued (last subs))"]
  obtain pg2 where
    r2: "step plat (Execute e0) ?pg1 = (pg2, [send_event (queued s), EvInit 0, EvStart 0])"
    and aw: "awaiting pg2 (queued s)" and q2: "query_queue pg2 = map queued rest" by blast
  let ?T' = "snd (run plat (map Ready envs) pg2)"
  have T: "T = send_event (queued s) # EvInit 0 # EvStart 0 # ?T'"
    and P: "pg = fst (run plat (map Ready envs) pg2)"
    using assms(6) by (simp_all add: run_append r1 r2 split_beta del: step.simps)
  note a = awaiting_run[OF aw assms(5), unfolded q2]
  have ops: "queued s # map queued rest = map queued subs" by (simp add: subs)
  from a have 1: "filter is_callback T = expected_callbacks subs (drained envs)"
    by (simp add: T ops map2_queued del: list.map)
  from a have 2: "length (drained envs) < length subs \<longrightarrow>
            \<not> destroying pg \<and> EvClose \<notin> set T \<and> EvFreePg \<notin> set T"
    by (auto simp: T P subs harmless_def)
  have 3: "length subs \<le> length (drained envs) \<longrightarrow>
            destroying pg \<and>
            (\<exists>body. T = body @ [EvClose] \<and> EvClose \<notin> set body \<and> EvFreePg \<notin> set body \<and>
                    filter is_callback body = expected_callbacks subs (drained envs))"
  proof
    assume "length subs \<le> length (drained envs)"
    with a obtain body where dd: "destroying pg" and b: "?T' = body @ [EvClose]"
      and hb: "harmless body" by (auto simp: subs P)
    have "T = (send_event (queued s) # EvInit 0 # EvStart 0 # body) @ [EvClose]"
      by (simp add: T b)
    moreover have "EvClose \<notin> set (send_event (queued s) # EvInit 0 # EvStart 0 # body)"
      "EvFreePg \<notin> set (send_event (queued s) # EvInit 0 # EvStart 0 # body)"
      using hb by (simp_all add: harmless_def)
    moreover have "filter is_callback (send_event (queued s) # EvInit 0 # EvStart 0 # body)
        = expected_callbacks subs (drained envs)"
      using 1 by (simp add: T b)
    ultimately show "destroying pg \<and>
            (\<exists>body. T = body @ [EvClose] \<and> EvClose \<notin> set body \<and> EvFreePg \<notin> set body \<and>
                    filter is_callback body = expected_callbacks subs (drained envs))"
      using dd by blast
  qed
  show ?thesis using 1 2 3 by blast
qed

theorem fifo_callbacks_witness:
  "filter is_callback
     (snd (run Unix (map submit [sub_a, sub_b] @ Execute (ok_env [])
                      # map Ready [(ok_env [])\<lparr>e_is_busy := True\<rparr>,
                                   ok_env [res 1 PGRES_TUPLES_OK],
                                   ok_env [res 2 PGRES_TUPLES_OK, res 3 PGRES_COMMAND_OK]]) fresh))
     = [EvResultCb 7 (res 1 PGRES_TUPLES_OK) 0, EvResultCb 8 (res 2 PGRES_TUPLES_OK) 5,
        EvResultCb 8 (res 3 PGRES_COMMAND_OK) 5] \<and>
   destroying
     (fst (run Unix (map submit [sub_a, sub_b] @ Execute (ok_env [])
                      # map Ready [(ok_env [])\<lparr>e_is_busy := True\<rparr>,
                                   ok_env [res 1 PGRES_TUPLES_OK],
                                   ok_env [res 2 PGRES_TUPLES_OK, res 3 PGRES_COMMAND_OK]]) fresh)) \<and>
   (\<exists>body.
      snd (run Unix (map submit [sub_a, sub_b] @ Execute (ok_env [])
                      # map Ready [(ok_env [])\<lparr>e_is_busy := True\<rparr>,
                                   ok_env [res 1 PGRES_TUPLES_OK],
                                   ok_env [res 2 PGRES_TUPLES_OK, res 3 PGRES_COMMAND_OK]]) fresh)
        = body @ [EvClose] \<and>
      EvClose \<notin> set body \<and> EvFreePg \<notin> set body \<and>
      filter is_callback body
        = [EvResultCb 7 (res 1 PGRES_TUPLES_OK) 0, EvResultCb 8 (res 2 PGRES_TUPLES_OK) 5,
           EvResultCb 8 (res 3 PGRES_COMMAND_OK) 5])"
proof -
  let ?envs = "[(ok_env [])\<lparr>e_is_busy := True\<rparr>, ok_env [res 1 PGRES_TUPLES_OK],
                ok_env [res 2 PGRES_TUPLES_OK, res 3 PGRES_COMMAND_OK]]"
  let ?acts = "map submit [sub_a, sub_b] @ Execute (ok_env []) # map Ready ?envs"
  have h: "[sub_a, sub_b] \<noteq> []" "list_all accepted [sub_a, sub_b]"
    "dispatch_ok Unix (ok_env [])" "list_all (good_env Unix) ?envs"
    by (simp_all add: accepted_def sub_a_def sub_b_def ok_mem_def dispatch_ok_def ok_env_def
        good_env_def result_ok_def res_def)
  have r: "run Unix ?acts fresh = (fst (run Unix ?acts fresh), snd (run Unix ?acts fresh))"
    by simp
  have x: "expected_callbacks [sub_a, sub_b] (drained ?envs)
      = [EvResultCb 7 (res 1 PGRES_TUPLES_OK) 0, EvResultCb 8 (res 2 PGRES_TUPLES_OK) 5,
         EvResultCb 8 (res 3 PGRES_COMMAND_OK) 5]"
    by (simp add: expected_callbacks_def drained_def callbacks_for_def sub_a_def sub_b_def
        ok_env_def)
  have l: "length [sub_a, sub_b] \<le> length (drained ?envs)"
    by (simp add: drained_def ok_env_def)
  from fifo_callbacks[OF create_fresh h r] l show ?thesis
    unfolding x by blast
qed

subsection \<open>C9: when the handle is disarmed\<close>

text \<open>
  C9. The claim says that in every readiness or timer callback in which the driver is no
  longer busy, the handle is disarmed before the loop over the results begins.
  \<^verbatim>\<open>on_timer\<close> does so (\<open>timer_disarms_first\<close>). \<^verbatim>\<open>on_poll\<close> does not: with one
  result to deliver, the callback is invoked and the result cleared first, and
  \<^verbatim>\<open>uv_poll_stop\<close> follows the loop.
\<close>

theorem poll_drains_before_disarm:
  "snd (on_ready Unix (ok_env [res 1 PGRES_TUPLES_OK]) waiting)
     = [EvResultCb 7 (res 1 PGRES_TUPLES_OK) 0, EvClear (res 1 PGRES_TUPLES_OK), EvStop,
        EvFreeQuery query_a, EvSendQuery ''SELECT 2'', EvInit 0, EvStart 0] \<and>
   \<not> disarmed_before_loop (snd (on_ready Unix (ok_env [res 1 PGRES_TUPLES_OK]) waiting))"
proof -
  have t: "snd (on_ready Unix (ok_env [res 1 PGRES_TUPLES_OK]) waiting)
     = [EvResultCb 7 (res 1 PGRES_TUPLES_OK) 0, EvClear (res 1 PGRES_TUPLES_OK), EvStop,
        EvFreeQuery query_a, EvSendQuery ''SELECT 2'', EvInit 0, EvStart 0]"
    by (simp add: eval_defs waiting_def query_a_def query_b_def)
  show ?thesis unfolding t
    by (simp add: disarmed_before_loop_def before_stop_def is_callback_def)
qed

subsection \<open>C3: the context is freed exactly once\<close>

text \<open>
  C3. The claim says that on every destruction path the context is freed exactly once,
  within \<^verbatim>\<open>pg_async_destroy\<close> itself when the handle was never initialised. Queue one
  operation on a new context and let the first dispatch fail, by \<^verbatim>\<open>PQsendQuery\<close>
  returning \<open>0\<close> or by \<^verbatim>\<open>uv_poll_init\<close> returning an error: \<^verbatim>\<open>pquv_execute\<close> has set
  \<^verbatim>\<open>is_executing\<close>, so \<^verbatim>\<open>handle_error\<close> calls \<^verbatim>\<open>uv_poll_stop\<close> on the handle that
  \<^verbatim>\<open>pquv_create\<close> left zeroed. The process dies in that call: \<^verbatim>\<open>pquv_execute\<close> does
  not return, \<^verbatim>\<open>pg_async_destroy\<close> is not reached and the context is not freed.
\<close>

theorem first_dispatch_failure_crashes:
  "snd (run Unix [Queue ok_mem (Some ''SELECT 1'') 0 None (Some 7) 0,
                  Execute ((ok_env [])\<lparr>e_send_result := False\<rparr>),
                  CloseDone] fresh)
     = [EvSendQuery ''SELECT 1'', EvStop, EvCrash] \<and>
   snd (run Unix [Queue ok_mem (Some ''SELECT 1'') 0 None (Some 7) 0,
                  Execute ((ok_env [])\<lparr>e_init_result := - 1\<rparr>),
                  CloseDone] fresh)
     = [EvSendQuery ''SELECT 1'', EvInit (- 1), EvStop, EvCrash] \<and>
   fst (pquv_execute Unix ((ok_env [])\<lparr>e_send_result := False\<rparr>)
          (Some (fresh\<lparr>query_queue := [query_a], query_queue_tail := Some query_a\<rparr>))) = None"
  by (simp add: eval_defs query_a_def)

end
